theory Spec2Isabelle
  imports Main
begin

section \<open>JavaScript numbers, restricted to what \<open>Grid.next\<close> computes\<close>

text \<open>
  Coordinates, sizes and player ids are JavaScript numbers holding integers (in the range
  where double arithmetic is exact). The only non-integer value the code of \<open>index.js\<close>
  can produce from them is \<open>NaN\<close>, through \<open>%\<close> with a zero divisor, so a number is an
  integer or \<open>NaN\<close>.
\<close>

datatype number = Num int | NaN

text \<open>\<open>a + b\<close> with an integer right operand.\<close>

fun num_add :: "number \<Rightarrow> int \<Rightarrow> number" where
  "num_add (Num a) b = Num (a + b)"
| "num_add NaN b = NaN"

text \<open>\<open>a < 0\<close>: every comparison with \<open>NaN\<close> is false.\<close>

fun num_lt0 :: "number \<Rightarrow> bool" where
  "num_lt0 (Num a) = (a < 0)"
| "num_lt0 NaN = False"

text \<open>
  \<open>a % n\<close>: the remainder of the truncated division (it has the sign of the dividend),
  \<open>NaN\<close> when the divisor is zero.
\<close>

fun num_rem :: "number \<Rightarrow> int \<Rightarrow> number" where
  "num_rem (Num a) n = (if n = 0 then NaN else Num (sgn a * (\<bar>a\<bar> mod \<bar>n\<bar>)))"
| "num_rem NaN n = NaN"

text \<open>\<open>a === b\<close>: \<open>NaN\<close> is not equal to anything, itself included.\<close>

fun strict_eq :: "number \<Rightarrow> number \<Rightarrow> bool" where
  "strict_eq (Num a) (Num b) = (a = b)"
| "strict_eq _ _ = False"

section \<open>Cells, moves and the grid\<close>

text \<open>
  A \<open>Cell\<close> has the fields \<open>owner\<close>, \<open>x\<close>, \<open>y\<close> and the scratch list
  \<open>tmpAliveNeighbours\<close>. The scratch list is empty on every cell stored in the grid (it is
  filled by \<open>shouldBeBorn\<close> and emptied by \<open>setOwner\<close> within one iteration of the birth
  loop), so it is passed explicitly between these two functions and is not a field here.
\<close>

record cell =
  cell_x :: number
  cell_y :: number
  owner :: int

text \<open>A move, and an entry of a snapshot: \<open>{x, y, playerid}\<close> with integer fields.\<close>

record move =
  move_x :: int
  move_y :: int
  playerid :: int

record grid =
  grid_size :: int
  cells :: "cell list"

datatype error = TypeError

text \<open>\<open>new Cell(x, y)\<close>: the owner starts as \<open>-1\<close>.\<close>

definition Cell :: "number \<Rightarrow> number \<Rightarrow> cell" where
  "Cell a b = \<lparr>cell_x = a, cell_y = b, owner = - 1\<rparr>"

text \<open>\<open>this.equals(c)\<close>\<close>

definition equals :: "cell \<Rightarrow> cell \<Rightarrow> bool" where
  "equals this c =
     (if strict_eq (cell_x c) (cell_x this)
      then (if strict_eq (cell_y c) (cell_y this) then True else False)
      else False)"

text \<open>\<open>new Grid(size)\<close>\<close>

definition Grid :: "int \<Rightarrow> grid" where
  "Grid n = \<lparr>grid_size = n, cells = []\<rparr>"

text \<open>\<open>Array.prototype.findIndex\<close>: the first index whose element passes, \<open>None\<close> for \<open>-1\<close>.\<close>

fun findIndex :: "('a \<Rightarrow> bool) \<Rightarrow> 'a list \<Rightarrow> nat option" where
  "findIndex P [] = None"
| "findIndex P (a # as) =
     (if P a then Some 0 else map_option Suc (findIndex P as))"

text \<open>\<open>xs.splice(i, 1)\<close>, as the list that remains.\<close>

definition splice1 :: "nat \<Rightarrow> 'a list \<Rightarrow> 'a list" where
  "splice1 i xs = take i xs @ drop (Suc i) xs"

definition mountSnapshot :: "grid \<Rightarrow> move list \<Rightarrow> grid" where
  "mountSnapshot g snapshot =
     foldl (\<lambda>g c. g\<lparr>cells := cells g @ [(Cell (Num (move_x c)) (Num (move_y c)))\<lparr>owner := playerid c\<rparr>]\<rparr>)
       g snapshot"

section \<open>\<open>Grid.next\<close>\<close>

subsection \<open>Applying the player commands\<close>

definition apply_move :: "grid \<Rightarrow> move \<Rightarrow> grid" where
  "apply_move g m =
     (let flip = (Cell (Num (move_x m)) (Num (move_y m)))\<lparr>owner := playerid m\<rparr> in
      case findIndex (\<lambda>c. equals c flip) (cells g) of
        Some flipIndex \<Rightarrow> g\<lparr>cells := splice1 flipIndex (cells g)\<rparr>
      | None \<Rightarrow> g\<lparr>cells := cells g @ [flip]\<rparr>)"

definition apply_moves :: "grid \<Rightarrow> move list \<Rightarrow> grid" where
  "apply_moves g turnMoves = foldl apply_move g turnMoves"

subsection \<open>Wrapped neighbourhood\<close>

text \<open>
  The two nested loops \<open>for (const i of [-1, 0, 1]) for (const j of [-1, 0, 1])\<close> with
  \<open>if (i === 0 && j === 0) continue\<close>, which \<open>next\<close> runs in three places.
\<close>

definition shifts :: "(int \<times> int) list" where
  "shifts = [(i, j). i \<leftarrow> [- 1, 0, 1], j \<leftarrow> [- 1, 0, 1], \<not> (i = 0 \<and> j = 0)]"

text \<open>\<open>xShift < 0 ? xShift + this.size : xShift % this.size\<close>\<close>

definition wrap :: "int \<Rightarrow> number \<Rightarrow> number" where
  "wrap n shift = (if num_lt0 shift then num_add shift n else num_rem shift n)"

definition isAlive :: "grid \<Rightarrow> cell \<Rightarrow> bool" where
  "isAlive g c = (findIndex (\<lambda>d. equals d c) (cells g) \<noteq> None)"

definition getNeighboursOf :: "grid \<Rightarrow> cell \<Rightarrow> cell list" where
  "getNeighboursOf g c =
     concat (map (\<lambda>(i, j).
       let xShift = num_add (cell_x c) i;
           yShift = num_add (cell_y c) j;
           xMod = wrap (grid_size g) xShift;
           yMod = wrap (grid_size g) yShift;
           neighbourCell = Cell xMod yMod;
           gridCell = filter (\<lambda>oldCell. equals oldCell neighbourCell) (cells g)
       in if length gridCell \<noteq> 0 then gridCell else [neighbourCell]) shifts)"

definition getAliveNeighboursOf :: "grid \<Rightarrow> cell \<Rightarrow> cell list" where
  "getAliveNeighboursOf g c = filter (isAlive g) (getNeighboursOf g c)"

subsection \<open>The ownership vote\<close>

text \<open>
  \<open>playersCount\<close> is an object used as a dictionary from player ids to tallies. It is kept
  as an association list in insertion order, because \<open>Object.keys\<close> depends on that order:
  it lists the keys that are array indices (the integers from \<open>0\<close> below \<open>2^32 - 1\<close>) in
  ascending order, then every other key in insertion order. A key is the decimal string of
  a player id, and \<open>parseInt(_, 10)\<close> reads the same integer back, so keys are kept as
  integers.
\<close>

type_synonym players_count = "(int \<times> nat) list"

definition count_up :: "players_count \<Rightarrow> int \<Rightarrow> players_count" where
  "count_up playersCount k =
     (case map_of playersCount k of
        Some n \<Rightarrow> map (\<lambda>(k', n'). if k' = k then (k', n' + 1) else (k', n')) playersCount
      | None \<Rightarrow> playersCount @ [(k, 1)])"

definition tally :: "cell list \<Rightarrow> players_count" where
  "tally aliveNeighbours =
     foldl (\<lambda>playersCount neighbour.
        if owner neighbour \<noteq> - 1 then count_up playersCount (owner neighbour)
        else playersCount) [] aliveNeighbours"

definition is_array_index :: "int \<Rightarrow> bool" where
  "is_array_index k = (0 \<le> k \<and> k < 4294967295)"

definition object_keys :: "players_count \<Rightarrow> int list" where
  "object_keys playersCount =
     sort (filter is_array_index (map fst playersCount))
       @ filter (\<lambda>k. \<not> is_array_index k) (map fst playersCount)"

text \<open>\<open>playersCount[a] > playersCount[b]\<close>; a missing key reads \<open>undefined\<close>, which compares false.\<close>

definition count_gt :: "players_count \<Rightarrow> int \<Rightarrow> int \<Rightarrow> bool" where
  "count_gt playersCount a b =
     (case (map_of playersCount a, map_of playersCount b) of
        (Some m, Some n) \<Rightarrow> m > n
      | _ \<Rightarrow> False)"

text \<open>
  \<open>Array.prototype.reduce\<close> without an initial value: it throws a \<open>TypeError\<close> on an empty
  array and starts from the first element otherwise.
\<close>

fun reduce :: "('a \<Rightarrow> 'a \<Rightarrow> 'a) \<Rightarrow> 'a list \<Rightarrow> error + 'a" where
  "reduce f [] = Inl TypeError"
| "reduce f (a # as) = Inr (foldl f a as)"

definition most :: "cell list \<Rightarrow> error + int" where
  "most aliveNeighbours =
     (let playersCount = tally aliveNeighbours in
      reduce (\<lambda>a b. if count_gt playersCount a b then a else b)
        (rev (object_keys playersCount)))"

subsection \<open>Births\<close>

text \<open>
  \<open>shouldBeBorn(neighbour)\<close> returns whether the counter reached exactly 3 and leaves the
  live cells it met in \<open>neighbour.tmpAliveNeighbours\<close>; both are returned here.
\<close>

definition shouldBeBorn :: "grid \<Rightarrow> cell \<Rightarrow> bool \<times> cell list" where
  "shouldBeBorn g neighbour =
     (let (counter, tmpAliveNeighbours) =
        foldl (\<lambda>(counter, tmpAliveNeighbours) (i, j).
          let xShift = num_add (cell_x neighbour) i;
              yShift = num_add (cell_y neighbour) j;
              xMod = wrap (grid_size g) xShift;
              yMod = wrap (grid_size g) yShift;
              neighbourCell = Cell xMod yMod
          in case findIndex (\<lambda>c. equals c neighbourCell) (cells g) of
               Some neighbourCellIndex \<Rightarrow>
                 (counter + 1, tmpAliveNeighbours @ [cells g ! neighbourCellIndex])
             | None \<Rightarrow> (counter, tmpAliveNeighbours))
          (0 :: nat, []) shifts
      in (counter = 3, tmpAliveNeighbours))"

text \<open>\<open>setOwner(cell)\<close>, given the scratch list of the cell.\<close>

definition setOwner :: "cell \<Rightarrow> cell list \<Rightarrow> error + cell" where
  "setOwner c tmpAliveNeighbours =
     (case most tmpAliveNeighbours of
        Inl e \<Rightarrow> Inl e
      | Inr p \<Rightarrow> Inr (c\<lparr>owner := p\<rparr>))"

text \<open>A loop whose body may throw: the first exception ends it.\<close>

fun for_each :: "('s \<Rightarrow> 'a \<Rightarrow> error + 's) \<Rightarrow> 's \<Rightarrow> 'a list \<Rightarrow> error + 's" where
  "for_each body s [] = Inr s"
| "for_each body s (a # as) =
     (case body s a of Inl e \<Rightarrow> Inl e | Inr s' \<Rightarrow> for_each body s' as)"

text \<open>
  The state of the birth loop is \<open>checked\<close> and \<open>newBorns\<close>. \<open>checked\<close> is an object keyed
  by the string \<open>`${x},${y}`\<close>, of which only the presence of a key is read; the string
  determines both numbers, so the keys are kept as pairs.
\<close>

type_synonym birth_state = "(number \<times> number) list \<times> cell list"

definition visit :: "grid \<Rightarrow> cell \<Rightarrow> birth_state \<Rightarrow> int \<times> int \<Rightarrow> error + birth_state" where
  "visit g currentCell st ij =
     (case (st, ij) of ((checked, newBorns), (i, j)) \<Rightarrow>
      let xShift = num_add (cell_x currentCell) i;
          yShift = num_add (cell_y currentCell) j;
          xMod = wrap (grid_size g) xShift;
          yMod = wrap (grid_size g) yShift;
          neighbour = Cell xMod yMod
      in if isAlive g neighbour then Inr (checked, newBorns)
         else if (cell_x neighbour, cell_y neighbour) \<in> set checked then Inr (checked, newBorns)
         else
           let checked' = checked @ [(cell_x neighbour, cell_y neighbour)];
               (born, tmpAliveNeighbours) = shouldBeBorn g neighbour
           in if born
              then (case setOwner neighbour tmpAliveNeighbours of
                      Inl e \<Rightarrow> Inl e
                    | Inr neighbour' \<Rightarrow> Inr (checked', newBorns @ [neighbour']))
              else Inr (checked', newBorns))"

definition births :: "grid \<Rightarrow> error + birth_state" where
  "births g =
     for_each (\<lambda>st currentCell. for_each (visit g currentCell) st shifts) ([], []) (cells g)"

subsection \<open>Survival and the step\<close>

definition isHealthy :: "grid \<Rightarrow> cell \<Rightarrow> bool" where
  "isHealthy g c =
     (let numAliveNeighbours = length (getAliveNeighboursOf g c)
      in numAliveNeighbours \<in> set [2, 3])"

text \<open>
  \<open>next(turnMoves)\<close>: the moves are applied to \<open>this.cells\<close> in place, then the births
  and the survivors are computed on that list and assigned to \<open>this.cells\<close>. The result is
  the grid after the call, or the exception that left it. The calls of \<open>performance.now\<close>
  and \<open>console.log\<close> only time and print; they are left out.
\<close>

definition grid_next :: "grid \<Rightarrow> move list \<Rightarrow> error + grid" where
  "grid_next g turnMoves =
     (let g1 = apply_moves g turnMoves in
      case births g1 of
        Inl e \<Rightarrow> Inl e
      | Inr (checked, newBorns) \<Rightarrow>
          let stillAliveCells = filter (isHealthy g1) (cells g1)
          in Inr (g1\<lparr>cells := newBorns @ stillAliveCells\<rparr>))"

section \<open>Vocabulary for the properties\<close>

text \<open>
  The definitions of this section are not functions of \<open>index.js\<close>; they name what the
  properties below talk about. A coordinate is a pair of numbers.
\<close>

definition coords :: "cell \<Rightarrow> number \<times> number" where
  "coords c = (cell_x c, cell_y c)"

text \<open>A coordinate is live when \<open>isAlive\<close> accepts a fresh cell at it.\<close>

definition live_at :: "grid \<Rightarrow> number \<times> number \<Rightarrow> bool" where
  "live_at g p = isAlive g (Cell (fst p) (snd p))"

text \<open>
  The eight neighbour coordinates in the words of the specification: \<open>(x+i, y+j)\<close> for
  \<open>i, j\<close> in \<open>{-1, 0, 1}\<close> without \<open>(0, 0)\<close>, each wrapped by
  \<open>raw < 0 ? raw + size : raw % size\<close>. The three loops of \<open>next\<close> compute these
  coordinates inline; the lemmas \<open>shouldBeBorn_eq\<close>, \<open>getNeighboursOf_eq\<close> and
  \<open>visit_eq\<close> relate each of them to this list.
\<close>

definition neighbour_coords :: "int \<Rightarrow> number \<times> number \<Rightarrow> (number \<times> number) list" where
  "neighbour_coords n p =
     map (\<lambda>(i, j). (wrap n (num_add (fst p) i), wrap n (num_add (snd p) j))) shifts"

text \<open>How many of the eight neighbour coordinates (counted as listed) are live.\<close>

definition live_count :: "grid \<Rightarrow> number \<times> number \<Rightarrow> nat" where
  "live_count g p = length (filter (live_at g) (neighbour_coords (grid_size g) p))"

text \<open>\<open>this.cells[findIndex(...)]\<close>: the first live cell at a coordinate, if any.\<close>

definition first_at :: "grid \<Rightarrow> number \<times> number \<Rightarrow> cell list" where
  "first_at g p =
     (case findIndex (\<lambda>c. equals c (Cell (fst p) (snd p))) (cells g) of
        Some k \<Rightarrow> [cells g ! k]
      | None \<Rightarrow> [])"

definition live_neighbours :: "grid \<Rightarrow> number \<times> number \<Rightarrow> cell list" where
  "live_neighbours g p = concat (map (first_at g) (neighbour_coords (grid_size g) p))"

text \<open>Every cell of the grid at a coordinate, as \<open>getNeighboursOf\<close> filters them.\<close>

definition cells_at :: "grid \<Rightarrow> number \<times> number \<Rightarrow> cell list" where
  "cells_at g p = filter (\<lambda>d. equals d (Cell (fst p) (snd p))) (cells g)"

definition live_cells_around :: "grid \<Rightarrow> number \<times> number \<Rightarrow> cell list" where
  "live_cells_around g p = concat (map (cells_at g) (neighbour_coords (grid_size g) p))"

text \<open>The coordinate a move toggles: its own, never wrapped.\<close>

definition target :: "move \<Rightarrow> number \<times> number" where
  "target m = (Num (move_x m), Num (move_y m))"

text \<open>The coordinates the birth loop visits: every neighbour coordinate of a live cell.\<close>

definition candidates :: "grid \<Rightarrow> (number \<times> number) set" where
  "candidates g = (\<Union>c\<in>set (cells g). set (neighbour_coords (grid_size g) (coords c)))"

text \<open>The tally of a player among a list of cells.\<close>

definition votes_for :: "int \<Rightarrow> cell list \<Rightarrow> nat" where
  "votes_for q cs = length (filter (\<lambda>d. owner d = q) cs)"

text \<open>\<open>0 \<le> x < size\<close>, for a number.\<close>

fun inside :: "int \<Rightarrow> number \<Rightarrow> bool" where
  "inside n (Num a) = (0 \<le> a \<and> a < n)"
| "inside n NaN = False"

definition in_bounds :: "grid \<Rightarrow> bool" where
  "in_bounds g =
     list_all (\<lambda>c. inside (grid_size g) (cell_x c) \<and> inside (grid_size g) (cell_y c)) (cells g)"

text \<open>
  The neighbours on the torus, in the words of the glossary: coordinates are identified
  with their value modulo the size.
\<close>

definition torus_neighbours :: "int \<Rightarrow> int \<Rightarrow> int \<Rightarrow> (number \<times> number) list" where
  "torus_neighbours n a b =
     map (\<lambda>(i, j). (Num ((a + i) mod n), Num ((b + j) mod n)))
       [(- 1, - 1), (- 1, 0), (- 1, 1), (0, - 1), (0, 1), (1, - 1), (1, 0), (1, 1)]"

text \<open>
  What holds of \<open>checked\<close> and \<open>newBorns\<close> once the birth loop has visited the
  coordinates \<open>S\<close>.
\<close>

definition births_inv :: "grid \<Rightarrow> (number \<times> number) set \<Rightarrow> birth_state \<Rightarrow> bool" where
  "births_inv g S st =
     (case st of (checked, newBorns) \<Rightarrow>
        distinct checked \<and> set checked = {p \<in> S. \<not> live_at g p} \<and>
        distinct (map coords newBorns) \<and>
        (\<forall>b. b \<in> set newBorns \<longleftrightarrow>
           coords b \<in> S \<and> \<not> live_at g (coords b) \<and> live_count g (coords b) = 3 \<and>
           most (live_neighbours g (coords b)) = Inr (owner b)) \<and>
        (\<forall>p\<in>S. \<not> live_at g p \<and> live_count g p = 3 \<longrightarrow>
           (\<exists>q. most (live_neighbours g p) = Inr q)))"

subsection \<open>Grids and moves of the test suite\<close>

text \<open>
  The grid of \<open>game rules basic tests\<close> and its two batches of moves, with the grid the
  first step produces; the grid and moves of \<open>game rules edge tests\<close> with the grid its
  first step produces; and small variations on them.
\<close>

definition blinker :: grid where
  "blinker = mountSnapshot (Grid 50)
     [\<lparr>move_x = 2, move_y = 3, playerid = 1\<rparr>,
      \<lparr>move_x = 3, move_y = 3, playerid = 1\<rparr>,
      \<lparr>move_x = 4, move_y = 3, playerid = 1\<rparr>]"

definition first_moves :: "move list" where
  "first_moves =
     [\<lparr>move_x = 10, move_y = 10, playerid = 1\<rparr>,
      \<lparr>move_x = 15, move_y = 15, playerid = 1\<rparr>,
      \<lparr>move_x = 25, move_y = 25, playerid = 1\<rparr>]"

definition second_moves :: "move list" where
  "second_moves =
     [\<lparr>move_x = 5, move_y = 2, playerid = 1\<rparr>,
      \<lparr>move_x = 1, move_y = 4, playerid = 1\<rparr>,
      \<lparr>move_x = 25, move_y = 25, playerid = 1\<rparr>]"

definition upright :: grid where
  "upright = \<lparr>grid_size = 50, cells =
     [\<lparr>cell_x = Num 3, cell_y = Num 2, owner = 1\<rparr>,
      \<lparr>cell_x = Num 3, cell_y = Num 4, owner = 1\<rparr>,
      \<lparr>cell_x = Num 3, cell_y = Num 3, owner = 1\<rparr>]\<rparr>"

definition crossed :: grid where
  "crossed = \<lparr>grid_size = 50, cells =
     [\<lparr>cell_x = Num 4, cell_y = Num 2, owner = 1\<rparr>,
      \<lparr>cell_x = Num 2, cell_y = Num 4, owner = 1\<rparr>,
      \<lparr>cell_x = Num 3, cell_y = Num 3, owner = 1\<rparr>]\<rparr>"

definition flat :: grid where
  "flat = \<lparr>grid_size = 50, cells =
     [\<lparr>cell_x = Num 2, cell_y = Num 3, owner = 1\<rparr>,
      \<lparr>cell_x = Num 4, cell_y = Num 3, owner = 1\<rparr>,
      \<lparr>cell_x = Num 3, cell_y = Num 3, owner = 1\<rparr>]\<rparr>"

definition edge :: grid where
  "edge = mountSnapshot (Grid 5)
     [\<lparr>move_x = 1, move_y = 2, playerid = 1\<rparr>,
      \<lparr>move_x = 2, move_y = 2, playerid = 1\<rparr>,
      \<lparr>move_x = 3, move_y = 2, playerid = 1\<rparr>]"

definition edge_moves :: "move list" where
  "edge_moves =
     [\<lparr>move_x = 4, move_y = 1, playerid = 1\<rparr>,
      \<lparr>move_x = 4, move_y = 3, playerid = 1\<rparr>]"

definition edge_next :: grid where
  "edge_next = \<lparr>grid_size = 5, cells =
     [\<lparr>cell_x = Num 0, cell_y = Num 2, owner = 1\<rparr>,
      \<lparr>cell_x = Num 2, cell_y = Num 1, owner = 1\<rparr>,
      \<lparr>cell_x = Num 2, cell_y = Num 3, owner = 1\<rparr>,
      \<lparr>cell_x = Num 3, cell_y = Num 1, owner = 1\<rparr>,
      \<lparr>cell_x = Num 3, cell_y = Num 3, owner = 1\<rparr>,
      \<lparr>cell_x = Num 4, cell_y = Num 2, owner = 1\<rparr>,
      \<lparr>cell_x = Num 2, cell_y = Num 2, owner = 1\<rparr>,
      \<lparr>cell_x = Num 3, cell_y = Num 2, owner = 1\<rparr>]\<rparr>"

text \<open>The three cells of the first test, the last one owned by a second player.\<close>

definition contested :: grid where
  "contested = mountSnapshot (Grid 50)
     [\<lparr>move_x = 2, move_y = 3, playerid = 1\<rparr>,
      \<lparr>move_x = 3, move_y = 3, playerid = 1\<rparr>,
      \<lparr>move_x = 4, move_y = 3, playerid = 2\<rparr>]"

text \<open>Two cells facing each other across the seam of a grid of size 5.\<close>

definition seam :: grid where
  "seam = mountSnapshot (Grid 5)
     [\<lparr>move_x = 0, move_y = 2, playerid = 1\<rparr>,
      \<lparr>move_x = 4, move_y = 2, playerid = 2\<rparr>]"

text \<open>A batch that toggles \<open>(3, 3)\<close> twice, with another move in between.\<close>

definition retoggle :: "move list" where
  "retoggle =
     [\<lparr>move_x = 3, move_y = 3, playerid = 2\<rparr>,
      \<lparr>move_x = 7, move_y = 7, playerid = 2\<rparr>,
      \<lparr>move_x = 3, move_y = 3, playerid = 2\<rparr>]"

text \<open>Three moves in a row by the player id \<open>-1\<close>.\<close>

definition unowned_moves :: "move list" where
  "unowned_moves =
     [\<lparr>move_x = 2, move_y = 3, playerid = - 1\<rparr>,
      \<lparr>move_x = 3, move_y = 3, playerid = - 1\<rparr>,
      \<lparr>move_x = 4, move_y = 3, playerid = - 1\<rparr>]"

section \<open>Lemmas\<close>

subsection \<open>Liveness and the neighbourhood\<close>

lemma findIndex_None: "findIndex P xs = None \<longleftrightarrow> (\<forall>a\<in>set xs. \<not> P a)"
  by (induction xs) auto

lemma findIndex_Some:
  "findIndex P xs = Some k \<Longrightarrow> k < length xs \<and> P (xs ! k) \<and> (\<forall>j<k. \<not> P (xs ! j))"
proof (induction xs arbitrary: k)
  case Nil
  then show ?case by simp
next
  case (Cons a xs)
  show ?case
  proof (cases "P a")
    case True
    with Cons.prems show ?thesis by simp
  next
    case False
    with Cons.prems obtain k' where k': "findIndex P xs = Some k'" "k = Suc k'"
      by auto
    from Cons.IH [OF k'(1)] False k'(2) show ?thesis
      by (auto simp: nth_Cons split: nat.splits)
  qed
qed

lemma strict_eq_iff: "strict_eq u v \<longleftrightarrow> (\<exists>a. u = Num a \<and> v = Num a)"
  by (cases u; cases v) auto

lemma equals_iff:
  "equals d c \<longleftrightarrow> (\<exists>a b. coords c = (Num a, Num b) \<and> coords d = (Num a, Num b))"
  by (auto simp: equals_def coords_def strict_eq_iff)

lemma coords_Cell [simp]: "coords (Cell u v) = (u, v)"
  by (simp add: coords_def Cell_def)

lemma isAlive_iff: "isAlive g c \<longleftrightarrow> (\<exists>d\<in>set (cells g). equals d c)"
  by (auto simp: isAlive_def findIndex_None)

lemma live_at_iff:
  "live_at g p \<longleftrightarrow> (\<exists>a b. p = (Num a, Num b)) \<and> p \<in> coords ` set (cells g)"
  by (cases p) (force simp: live_at_def isAlive_iff equals_iff image_iff)

lemma isAlive_live_at: "isAlive g c = live_at g (coords c)"
  by (simp add: live_at_def isAlive_iff equals_iff coords_def Cell_def)

lemma first_at_live: "first_at g p = [] \<longleftrightarrow> \<not> live_at g p"
  by (auto simp: first_at_def live_at_def isAlive_def split: option.splits)

lemma length_first_at: "length (first_at g p) = (if live_at g p then 1 else 0)"
  by (auto simp: first_at_def live_at_def isAlive_def split: option.splits)

lemma first_at_mem:
  assumes "d \<in> set (first_at g p)"
  shows "d \<in> set (cells g) \<and> coords d = p"
proof -
  from assms obtain k where k: "findIndex (\<lambda>c. equals c (Cell (fst p) (snd p))) (cells g) = Some k"
    and d: "d = cells g ! k"
    by (cases "findIndex (\<lambda>c. equals c (Cell (fst p) (snd p))) (cells g)")
      (simp_all add: first_at_def)
  from findIndex_Some [OF k] have "k < length (cells g)" "equals d (Cell (fst p) (snd p))"
    by (simp_all add: d)
  then show ?thesis
    by (auto simp: d equals_iff)
qed

lemma length_concat_first_at:
  "length (concat (map (first_at g) ps)) = length (filter (live_at g) ps)"
  by (induction ps) (auto simp: length_first_at)

lemma length_live_neighbours: "length (live_neighbours g p) = live_count g p"
  by (simp add: live_neighbours_def live_count_def length_concat_first_at)

lemma shouldBeBorn_loop:
  "foldl (\<lambda>(counter, tmpAliveNeighbours) (i, j).
          let xShift = num_add (cell_x c) i;
              yShift = num_add (cell_y c) j;
              xMod = wrap (grid_size g) xShift;
              yMod = wrap (grid_size g) yShift;
              neighbourCell = Cell xMod yMod
          in case findIndex (\<lambda>c. equals c neighbourCell) (cells g) of
               Some neighbourCellIndex \<Rightarrow>
                 (counter + 1, tmpAliveNeighbours @ [cells g ! neighbourCellIndex])
             | None \<Rightarrow> (counter, tmpAliveNeighbours))
          (k, t) ss
   = (k + length (concat (map (\<lambda>(i, j). first_at g (wrap (grid_size g) (num_add (cell_x c) i), wrap (grid_size g) (num_add (cell_y c) j))) ss)),
      t @ concat (map (\<lambda>(i, j). first_at g (wrap (grid_size g) (num_add (cell_x c) i), wrap (grid_size g) (num_add (cell_y c) j))) ss))"
  by (induction ss arbitrary: k t) (auto simp: first_at_def Let_def split: option.splits)

lemma shouldBeBorn_eq:
  "shouldBeBorn g c = (live_count g (coords c) = 3, live_neighbours g (coords c))"
  unfolding shouldBeBorn_def shouldBeBorn_loop
  by (simp add: live_neighbours_def neighbour_coords_def coords_def comp_def case_prod_unfold
      flip: length_live_neighbours)

subsection \<open>The survival count\<close>

lemma cells_at_Nil: "cells_at g p = [] \<longleftrightarrow> \<not> live_at g p"
  by (auto simp: cells_at_def live_at_def isAlive_iff filter_empty_conv)

lemma cells_at_mem: "d \<in> set (cells_at g p) \<longleftrightarrow> d \<in> set (cells g) \<and> equals d (Cell (fst p) (snd p))"
  by (simp add: cells_at_def)

lemma equals_self: "equals d c \<Longrightarrow> equals d d"
  by (auto simp: equals_iff)

lemma cells_at_alive: "filter (isAlive g) (cells_at g p) = cells_at g p"
proof -
  have "isAlive g d" if "d \<in> set (cells_at g p)" for d
    using that by (auto simp: cells_at_mem isAlive_iff dest: equals_self)
  then show ?thesis
    by (simp add: filter_id_conv)
qed

lemma alive_chunk:
  "filter (isAlive g)
     (if length (cells_at g p) \<noteq> 0 then cells_at g p else [Cell (fst p) (snd p)])
   = cells_at g p"
proof (cases "cells_at g p = []")
  case True
  then have "\<not> isAlive g (Cell (fst p) (snd p))"
    by (simp add: cells_at_Nil live_at_def)
  with True show ?thesis by simp
next
  case False
  then show ?thesis by (simp add: cells_at_alive)
qed

lemma getNeighboursOf_eq:
  "getNeighboursOf g c =
     concat (map (\<lambda>p. if length (cells_at g p) \<noteq> 0 then cells_at g p
                      else [Cell (fst p) (snd p)])
       (neighbour_coords (grid_size g) (coords c)))"
  by (simp add: getNeighboursOf_def neighbour_coords_def coords_def cells_at_def comp_def
      case_prod_unfold Let_def cong: if_cong)

lemma alive_chunks:
  "filter (isAlive g)
     (concat (map (\<lambda>p. if length (cells_at g p) \<noteq> 0 then cells_at g p
                       else [Cell (fst p) (snd p)]) ps))
   = concat (map (cells_at g) ps)"
  by (induction ps) (simp_all only: list.map concat.simps filter_append filter.simps alive_chunk)

lemma getAliveNeighboursOf_eq:
  "getAliveNeighboursOf g c =
     concat (map (cells_at g) (neighbour_coords (grid_size g) (coords c)))"
  unfolding getAliveNeighboursOf_def getNeighboursOf_eq by (rule alive_chunks)

lemma distinct_filter_eq_le1: "distinct xs \<Longrightarrow> length (filter (\<lambda>q. q = p) xs) \<le> 1"
  by (induction xs) (auto simp: filter_empty_conv)

lemma length_cells_at_distinct:
  assumes "distinct (map coords (cells g))"
  shows "length (cells_at g p) = (if live_at g p then 1 else 0)"
proof (cases "live_at g p")
  case False
  then show ?thesis by (simp add: cells_at_Nil)
next
  case True
  then have ne: "cells_at g p \<noteq> []" by (simp add: cells_at_Nil)
  have "cells_at g p = filter (\<lambda>d. coords d = p) (cells g)"
    using True unfolding cells_at_def
    by (intro filter_cong refl) (auto simp: equals_iff live_at_iff)
  also have "length \<dots> = length (filter (\<lambda>q. q = p) (map coords (cells g)))"
    by (simp add: filter_map comp_def)
  also have "\<dots> \<le> 1"
    using assms by (rule distinct_filter_eq_le1)
  finally show ?thesis
    using ne True by (cases "cells_at g p") auto
qed

lemma length_alive_distinct:
  assumes "distinct (map coords (cells g))"
  shows "length (getAliveNeighboursOf g c) = live_count g (coords c)"
proof -
  have "length (concat (map (cells_at g) ps)) = length (filter (live_at g) ps)" for ps
    by (induction ps) (simp_all add: length_cells_at_distinct [OF assms])
  then show ?thesis
    by (simp add: getAliveNeighboursOf_eq live_count_def)
qed

lemma isHealthy_distinct:
  assumes "distinct (map coords (cells g))"
  shows "isHealthy g c \<longleftrightarrow> live_count g (coords c) = 2 \<or> live_count g (coords c) = 3"
  by (simp add: isHealthy_def Let_def length_alive_distinct [OF assms])

subsection \<open>Coordinates that are not integers\<close>

lemma wrap_NaN [simp]: "wrap n NaN = NaN"
  by (simp add: wrap_def)

lemma live_at_NaN [simp]: "\<not> live_at g (NaN, v)" "\<not> live_at g (u, NaN)"
  by (simp_all add: live_at_iff)

lemma neighbour_coords_NaN:
  assumes "q \<in> set (neighbour_coords n p)" and "fst p = NaN \<or> snd p = NaN"
  shows "fst q = NaN \<or> snd q = NaN"
  using assms by (auto simp: neighbour_coords_def)

lemma live_count_NaN:
  assumes "fst p = NaN \<or> snd p = NaN"
  shows "live_count g p = 0"
proof -
  have "\<not> live_at g q" if "q \<in> set (neighbour_coords (grid_size g) p)" for q
    using neighbour_coords_NaN [OF that assms] by (cases q) auto
  then show ?thesis
    by (simp add: live_count_def filter_empty_conv)
qed

lemma no_alive_neighbours_NaN:
  assumes "cell_x c = NaN \<or> cell_y c = NaN"
  shows "getAliveNeighboursOf g c = []"
proof -
  have "cells_at g q = []" if "q \<in> set (neighbour_coords (grid_size g) (coords c))" for q
  proof -
    from assms have "fst (coords c) = NaN \<or> snd (coords c) = NaN"
      by (simp add: coords_def)
    from neighbour_coords_NaN [OF that this] show ?thesis
      by (cases q) (auto simp: cells_at_Nil)
  qed
  then show ?thesis
    by (simp add: getAliveNeighboursOf_eq)
qed

lemma isHealthy_Num:
  assumes "isHealthy g c"
  shows "\<exists>a b. coords c = (Num a, Num b)"
proof (rule ccontr)
  assume "\<not> ?thesis"
  then have "cell_x c = NaN \<or> cell_y c = NaN"
    by (cases "cell_x c"; cases "cell_y c") (simp_all add: coords_def)
  from no_alive_neighbours_NaN [OF this] assms show False
    by (simp add: isHealthy_def)
qed

lemma survivor_live_at:
  assumes "c \<in> set (cells g)" and "isHealthy g c"
  shows "live_at g (coords c)"
  using assms isHealthy_Num [OF assms(2)] by (auto simp: live_at_iff)

subsection \<open>Moves\<close>

lemma equals_flip:
  "equals c ((Cell (Num (move_x m)) (Num (move_y m)))\<lparr>owner := playerid m\<rparr>) \<longleftrightarrow> coords c = target m"
  by (auto simp: equals_iff coords_def Cell_def target_def)

lemma grid_size_apply_move [simp]: "grid_size (apply_move g m) = grid_size g"
  by (simp add: apply_move_def Let_def split: option.splits)

lemma grid_size_apply_moves [simp]: "grid_size (apply_moves g ms) = grid_size g"
  unfolding apply_moves_def by (induction ms arbitrary: g) simp_all

lemma apply_moves_Nil [simp]: "apply_moves g [] = g"
  by (simp add: apply_moves_def)

lemma apply_moves_Cons [simp]: "apply_moves g (m # ms) = apply_moves (apply_move g m) ms"
  by (simp add: apply_moves_def)

lemma apply_moves_append: "apply_moves g (ms @ ms') = apply_moves (apply_moves g ms) ms'"
  by (simp add: apply_moves_def)

lemma apply_move_dead:
  assumes "\<not> live_at g (target m)"
  shows "cells (apply_move g m) =
    cells g @ [\<lparr>cell_x = Num (move_x m), cell_y = Num (move_y m), owner = playerid m\<rparr>]"
proof -
  have "findIndex (\<lambda>c. coords c = target m) (cells g) = None"
    using assms by (force simp: findIndex_None live_at_iff target_def image_iff)
  then show ?thesis
    by (simp add: apply_move_def equals_flip Let_def) (simp add: Cell_def)
qed

lemma apply_move_live:
  assumes "live_at g (target m)"
  shows "\<exists>k. k < length (cells g) \<and> coords (cells g ! k) = target m
    \<and> (\<forall>j<k. coords (cells g ! j) \<noteq> target m)
    \<and> cells (apply_move g m) = take k (cells g) @ drop (Suc k) (cells g)"
proof -
  from assms obtain k where k: "findIndex (\<lambda>c. coords c = target m) (cells g) = Some k"
    by (cases "findIndex (\<lambda>c. coords c = target m) (cells g)")
      (auto simp: findIndex_None live_at_iff)
  from findIndex_Some [OF k] k show ?thesis
    by (auto simp: apply_move_def equals_flip splice1_def)
qed

lemma apply_move_subset:
  "c \<in> set (cells (apply_move g m)) \<Longrightarrow> c \<in> set (cells g) \<or> coords c = target m"
proof (cases "live_at g (target m)")
  case True
  assume c: "c \<in> set (cells (apply_move g m))"
  from apply_move_live [OF True] obtain k where
    "cells (apply_move g m) = take k (cells g) @ drop (Suc k) (cells g)" by blast
  with c show ?thesis
    by (auto dest: in_set_takeD in_set_dropD)
next
  case False
  assume "c \<in> set (cells (apply_move g m))"
  then show ?thesis
    by (auto simp: apply_move_dead [OF False] coords_def target_def)
qed

lemma mem_splice1:
  "a \<in> set xs \<Longrightarrow> k < length xs \<Longrightarrow> xs ! k \<noteq> a \<Longrightarrow> a \<in> set (take k xs @ drop (Suc k) xs)"
proof (induction xs arbitrary: k)
  case Nil
  then show ?case by simp
next
  case (Cons b xs)
  show ?case
  proof (cases k)
    case 0
    with Cons.prems show ?thesis by auto
  next
    case (Suc k')
    with Cons.prems Cons.IH [of k'] show ?thesis by auto
  qed
qed

lemma distinct_splice1: "distinct xs \<Longrightarrow> distinct (take k xs @ drop (Suc k) xs)"
proof (induction xs arbitrary: k)
  case Nil
  then show ?case by simp
next
  case (Cons b xs)
  show ?case
  proof (cases k)
    case 0
    with Cons.prems show ?thesis by simp
  next
    case (Suc k')
    with Cons.prems Cons.IH [of k'] show ?thesis
      by (auto dest: in_set_takeD in_set_dropD)
  qed
qed

lemma apply_move_other:
  assumes "c \<in> set (cells g)" and "coords c \<noteq> target m"
  shows "c \<in> set (cells (apply_move g m))"
proof (cases "live_at g (target m)")
  case True
  from apply_move_live [OF True] obtain k where k: "k < length (cells g)"
    "coords (cells g ! k) = target m"
    "cells (apply_move g m) = take k (cells g) @ drop (Suc k) (cells g)" by blast
  from k(2) assms(2) have "cells g ! k \<noteq> c" by auto
  from mem_splice1 [OF assms(1) k(1) this] show ?thesis
    by (simp add: k(3))
next
  case False
  with assms show ?thesis
    by (simp add: apply_move_dead)
qed

lemma distinct_apply_move:
  assumes "distinct (map coords (cells g))"
  shows "distinct (map coords (cells (apply_move g m)))"
proof (cases "live_at g (target m)")
  case True
  from apply_move_live [OF True] obtain k where
    k: "cells (apply_move g m) = take k (cells g) @ drop (Suc k) (cells g)" by blast
  have "distinct (take k (map coords (cells g)) @ drop (Suc k) (map coords (cells g)))"
    using assms by (rule distinct_splice1)
  then show ?thesis
    by (simp add: k take_map drop_map)
next
  case False
  then have "target m \<notin> coords ` set (cells g)"
    by (auto simp: live_at_iff target_def)
  with assms show ?thesis
    by (simp add: apply_move_dead [OF False]) (simp add: coords_def target_def)
qed

lemma distinct_apply_moves:
  "distinct (map coords (cells g)) \<Longrightarrow> distinct (map coords (cells (apply_moves g ms)))"
  by (induction ms arbitrary: g) (simp_all add: distinct_apply_move)

lemma live_at_apply_move_other:
  assumes "p \<noteq> target m"
  shows "live_at (apply_move g m) p = live_at g p"
proof -
  have "p \<in> coords ` set (cells (apply_move g m)) \<longleftrightarrow> p \<in> coords ` set (cells g)"
  proof
    assume "p \<in> coords ` set (cells (apply_move g m))"
    then obtain c where c: "c \<in> set (cells (apply_move g m))" "coords c = p" by auto
    from apply_move_subset [OF c(1)] c(2) assms show "p \<in> coords ` set (cells g)" by auto
  next
    assume "p \<in> coords ` set (cells g)"
    then obtain c where c: "c \<in> set (cells g)" "coords c = p" by auto
    from c(2) assms have "coords c \<noteq> target m" by simp
    from apply_move_other [OF c(1) this] c(2) show "p \<in> coords ` set (cells (apply_move g m))"
      by auto
  qed
  then show ?thesis
    by (simp add: live_at_iff)
qed

lemma nth_notin_splice1:
  "distinct xs \<Longrightarrow> k < length xs \<Longrightarrow> xs ! k \<notin> set (take k xs @ drop (Suc k) xs)"
proof (induction xs arbitrary: k)
  case Nil
  then show ?case by simp
next
  case (Cons b xs)
  show ?case
  proof (cases k)
    case 0
    with Cons.prems show ?thesis by simp
  next
    case (Suc k')
    with Cons.prems Cons.IH [of k'] show ?thesis
      by (auto dest: in_set_takeD in_set_dropD)
  qed
qed

lemma live_at_apply_move_target:
  assumes "distinct (map coords (cells g))"
  shows "live_at (apply_move g m) (target m) = (\<not> live_at g (target m))"
proof (cases "live_at g (target m)")
  case True
  from apply_move_live [OF True] obtain k where k: "k < length (cells g)"
    "coords (cells g ! k) = target m"
    "cells (apply_move g m) = take k (cells g) @ drop (Suc k) (cells g)" by blast
  from k(1) have "k < length (map coords (cells g))" by simp
  from nth_notin_splice1 [OF assms this] k(1,2)
  have "target m \<notin> set (map coords (cells (apply_move g m)))"
    by (simp add: k(3) take_map drop_map)
  then have "\<not> live_at (apply_move g m) (target m)"
    by (simp add: live_at_iff)
  with True show ?thesis by simp
next
  case False
  have "live_at (apply_move g m) (target m)"
    by (simp add: live_at_iff apply_move_dead [OF False] target_def coords_def)
  with False show ?thesis by simp
qed

lemma live_at_apply_moves:
  assumes "distinct (map coords (cells g))"
  shows "live_at (apply_moves g ms) p
    = (live_at g p \<noteq> odd (length (filter (\<lambda>m. target m = p) ms)))"
  using assms
proof (induction ms arbitrary: g)
  case Nil
  then show ?case by simp
next
  case (Cons m ms)
  from Cons.prems have d: "distinct (map coords (cells (apply_move g m)))"
    by (rule distinct_apply_move)
  show ?case
  proof (cases "target m = p")
    case True
    with Cons.IH [OF d] live_at_apply_move_target [OF Cons.prems, of m] show ?thesis
      by auto
  next
    case False
    then have "p \<noteq> target m" by auto
    from Cons.IH [OF d] live_at_apply_move_other [OF this, of g] False show ?thesis
      by simp
  qed
qed

lemma live_at_apply_moves_untouched:
  assumes "\<forall>m\<in>set ms. target m \<noteq> p"
  shows "live_at (apply_moves g ms) p = live_at g p"
  using assms
proof (induction ms arbitrary: g)
  case Nil
  then show ?case by simp
next
  case (Cons m ms)
  then have "p \<noteq> target m" by auto
  from live_at_apply_move_other [OF this] Cons show ?case
    by simp
qed

lemma apply_moves_subset:
  assumes "c \<in> set (cells (apply_moves g ms))" and "\<forall>m\<in>set ms. target m \<noteq> coords c"
  shows "c \<in> set (cells g)"
  using assms
proof (induction ms arbitrary: g)
  case Nil
  then show ?case by simp
next
  case (Cons m ms)
  then have "c \<in> set (cells (apply_move g m))" by simp
  from apply_move_subset [OF this] Cons.prems(2) show ?case
    by auto
qed

lemma apply_moves_other:
  assumes "c \<in> set (cells g)" and "\<forall>m\<in>set ms. target m \<noteq> coords c"
  shows "c \<in> set (cells (apply_moves g ms))"
  using assms
proof (induction ms arbitrary: g)
  case Nil
  then show ?case by simp
next
  case (Cons m ms)
  then have "coords c \<noteq> target m" by auto
  from apply_move_other [OF Cons.prems(1) this] Cons show ?case
    by simp
qed

subsection \<open>The birth loop\<close>

lemma for_each_Inr_append:
  "for_each body s (as @ bs) = Inr s'' \<longleftrightarrow>
     (\<exists>s'. for_each body s as = Inr s' \<and> for_each body s' bs = Inr s'')"
  by (induction as arbitrary: s) (auto split: sum.splits)

lemma visit_eq:
  "visit g c (chk, nb) (i, j) =
     (let p = (wrap (grid_size g) (num_add (cell_x c) i), wrap (grid_size g) (num_add (cell_y c) j))
      in if live_at g p then Inr (chk, nb)
         else if p \<in> set chk then Inr (chk, nb)
         else if live_count g p = 3
              then (case most (live_neighbours g p) of
                      Inl e \<Rightarrow> Inl e
                    | Inr q \<Rightarrow> Inr (chk @ [p], nb @ [\<lparr>cell_x = fst p, cell_y = snd p, owner = q\<rparr>]))
              else Inr (chk @ [p], nb))"
  by (simp add: visit_def Let_def shouldBeBorn_eq live_at_def setOwner_def Cell_def coords_def
      split: sum.splits)

lemma visit_cases:
  assumes "visit g c (chk, nb) ij = Inr st'"
    and "p = (wrap (grid_size g) (num_add (cell_x c) (fst ij)),
              wrap (grid_size g) (num_add (cell_y c) (snd ij)))"
  shows "((live_at g p \<or> p \<in> set chk) \<and> st' = (chk, nb))
    \<or> (\<not> live_at g p \<and> p \<notin> set chk \<and> live_count g p \<noteq> 3 \<and> st' = (chk @ [p], nb))
    \<or> (\<not> live_at g p \<and> p \<notin> set chk \<and> live_count g p = 3 \<and>
        (\<exists>q. most (live_neighbours g p) = Inr q \<and>
           st' = (chk @ [p], nb @ [\<lparr>cell_x = fst p, cell_y = snd p, owner = q\<rparr>])))"
proof -
  obtain i j where ij: "ij = (i, j)" by (cases ij)
  from assms(1) show ?thesis
    unfolding ij visit_eq Let_def assms(2) fst_conv snd_conv
    by (auto split: if_splits sum.splits)
qed

lemma births_inv_empty: "births_inv g {} ([], [])"
  by (simp add: births_inv_def)

lemma cell_eq_iff:
  "b = \<lparr>cell_x = u, cell_y = v, owner = q\<rparr> \<longleftrightarrow> coords b = (u, v) \<and> owner b = q"
  by (cases b) (auto simp: coords_def)

lemma births_inv_visit:
  assumes inv: "births_inv g S st" and v: "visit g c st ij = Inr st'"
    and p: "p = (wrap (grid_size g) (num_add (cell_x c) (fst ij)),
                 wrap (grid_size g) (num_add (cell_y c) (snd ij)))"
  shows "births_inv g (insert p S) st'"
proof -
  obtain chk nb where st: "st = (chk, nb)" by (cases st)
  from inv have dchk: "distinct chk" and schk: "set chk = {p \<in> S. \<not> live_at g p}"
    and dnb: "distinct (map coords nb)"
    and nb: "\<And>b. b \<in> set nb \<longleftrightarrow>
           coords b \<in> S \<and> \<not> live_at g (coords b) \<and> live_count g (coords b) = 3 \<and>
           most (live_neighbours g (coords b)) = Inr (owner b)"
    and ok: "\<And>p. p \<in> S \<Longrightarrow> \<not> live_at g p \<Longrightarrow> live_count g p = 3 \<Longrightarrow>
           \<exists>q. most (live_neighbours g p) = Inr q"
    unfolding births_inv_def st by auto
  from visit_cases [OF v [unfolded st] p]
  consider (skip) "live_at g p \<or> p \<in> set chk" "st' = (chk, nb)"
    | (reject) "\<not> live_at g p" "p \<notin> set chk" "live_count g p \<noteq> 3" "st' = (chk @ [p], nb)"
    | (born) q where "\<not> live_at g p" "p \<notin> set chk" "live_count g p = 3"
        "most (live_neighbours g p) = Inr q"
        "st' = (chk @ [p], nb @ [\<lparr>cell_x = fst p, cell_y = snd p, owner = q\<rparr>])"
    by blast
  then show ?thesis
  proof cases
    case skip
    have pS: "r \<in> insert p S \<and> \<not> live_at g r \<longleftrightarrow> r \<in> S \<and> \<not> live_at g r" for r
      using skip(1) schk by auto
    have 2: "set chk = {r \<in> insert p S. \<not> live_at g r}"
      using schk pS by auto
    have 4: "b \<in> set nb \<longleftrightarrow>
           coords b \<in> insert p S \<and> \<not> live_at g (coords b) \<and> live_count g (coords b) = 3 \<and>
           most (live_neighbours g (coords b)) = Inr (owner b)" for b
      using nb [of b] pS [of "coords b"] by blast
    have 5: "\<exists>q. most (live_neighbours g r) = Inr q"
      if "r \<in> insert p S" "\<not> live_at g r" "live_count g r = 3" for r
      using that ok [of r] pS [of r] by blast
    from dchk 2 dnb 4 5 show ?thesis
      unfolding births_inv_def skip(2) by simp
  next
    case reject
    from reject(1,2) schk have pS: "p \<notin> S" by auto
    have 1: "distinct (chk @ [p])" using dchk reject(2) by simp
    have 2: "set (chk @ [p]) = {r \<in> insert p S. \<not> live_at g r}"
      using schk reject(1) by auto
    have 3: "b \<in> set nb \<longleftrightarrow>
           coords b \<in> insert p S \<and> \<not> live_at g (coords b) \<and> live_count g (coords b) = 3 \<and>
           most (live_neighbours g (coords b)) = Inr (owner b)" for b
      using nb [of b] reject(3) by auto
    have 4: "\<exists>q. most (live_neighbours g r) = Inr q"
      if "r \<in> insert p S" "\<not> live_at g r" "live_count g r = 3" for r
      using that ok [of r] reject(3) by auto
    from 1 2 dnb 3 4 show ?thesis
      unfolding births_inv_def reject(4) by simp
  next
    case born
    from born(1,2) schk have pS: "p \<notin> S" by auto
    let ?b = "\<lparr>cell_x = fst p, cell_y = snd p, owner = q\<rparr>"
    have cb: "coords ?b = p" by (simp add: coords_def)
    have 1: "distinct (chk @ [p])" using dchk born(2) by simp
    have 2: "set (chk @ [p]) = {r \<in> insert p S. \<not> live_at g r}"
      using schk born(1) by auto
    have "p \<notin> coords ` set nb"
      using nb pS by auto
    with dnb have 3: "distinct (map coords (nb @ [?b]))"
      by (simp add: cb)
    have 4: "b \<in> set (nb @ [?b]) \<longleftrightarrow>
           coords b \<in> insert p S \<and> \<not> live_at g (coords b) \<and> live_count g (coords b) = 3 \<and>
           most (live_neighbours g (coords b)) = Inr (owner b)" for b
    proof (cases "coords b = p")
      case True
      with pS nb [of b] have "b \<notin> set nb" by auto
      moreover have "b = ?b \<longleftrightarrow> owner b = q"
        using True by (cases p) (simp add: cell_eq_iff)
      ultimately show ?thesis
        using True born(1,3,4) by auto
    next
      case False
      then have "b \<noteq> ?b" using cb by auto
      with False nb [of b] show ?thesis by auto
    qed
    have 5: "\<exists>q. most (live_neighbours g r) = Inr q"
      if "r \<in> insert p S" "\<not> live_at g r" "live_count g r = 3" for r
      using that ok [of r] born(4) by auto
    from 1 2 3 4 5 show ?thesis
      unfolding births_inv_def born(5) by simp
  qed
qed

lemma births_inv_shifts:
  assumes "births_inv g S st" and "for_each (visit g c) st ss = Inr st'"
  shows "births_inv g (S \<union> (\<lambda>ij. (wrap (grid_size g) (num_add (cell_x c) (fst ij)),
                 wrap (grid_size g) (num_add (cell_y c) (snd ij)))) ` set ss) st'"
  using assms
proof (induction ss arbitrary: S st)
  case Nil
  then show ?case by simp
next
  case (Cons ij ss)
  from Cons.prems(2) obtain st1 where st1: "visit g c st ij = Inr st1"
    "for_each (visit g c) st1 ss = Inr st'"
    by (auto split: sum.splits)
  from births_inv_visit [OF Cons.prems(1) st1(1) refl]
  have "births_inv g (insert (wrap (grid_size g) (num_add (cell_x c) (fst ij)),
                 wrap (grid_size g) (num_add (cell_y c) (snd ij))) S) st1" .
  from Cons.IH [OF this st1(2)] show ?case
    by simp
qed

lemma births_inv_cells:
  assumes "births_inv g S st"
    and "for_each (\<lambda>st currentCell. for_each (visit g currentCell) st shifts) st cs = Inr st'"
  shows "births_inv g (S \<union> (\<Union>c\<in>set cs. set (neighbour_coords (grid_size g) (coords c)))) st'"
  using assms
proof (induction cs arbitrary: S st)
  case Nil
  then show ?case by simp
next
  case (Cons c cs)
  from Cons.prems(2) obtain st1 where st1: "for_each (visit g c) st shifts = Inr st1"
    "for_each (\<lambda>st currentCell. for_each (visit g currentCell) st shifts) st1 cs = Inr st'"
    by (auto split: sum.splits)
  have "(\<lambda>ij. (wrap (grid_size g) (num_add (cell_x c) (fst ij)),
                 wrap (grid_size g) (num_add (cell_y c) (snd ij)))) ` set shifts
        = set (neighbour_coords (grid_size g) (coords c))"
    by (simp add: neighbour_coords_def coords_def case_prod_unfold)
  with births_inv_shifts [OF Cons.prems(1) st1(1)]
  have "births_inv g (S \<union> set (neighbour_coords (grid_size g) (coords c))) st1"
    by simp
  from Cons.IH [OF this st1(2)] show ?case
    by (simp add: Un_assoc)
qed

lemma births_inv_births:
  assumes "births g = Inr st"
  shows "births_inv g (candidates g) st"
  using births_inv_cells [OF births_inv_empty assms [unfolded births_def]]
  by (simp add: candidates_def)

subsection \<open>The vote\<close>

lemma map_of_bump:
  "map_of (map (\<lambda>(a, n). if a = k then (a, n + 1) else (a, n)) xs) b =
    (if b = k then map_option (\<lambda>n. n + 1) (map_of xs b) else map_of xs b)"
  by (induction xs) auto

lemma map_of_count_up:
  "map_of (count_up pc k) b =
     (if b = k then Some (case map_of pc k of Some n \<Rightarrow> n + 1 | None \<Rightarrow> 1) else map_of pc b)"
proof (cases "map_of pc k")
  case None
  then show ?thesis
    by (auto simp: count_up_def map_of_append map_add_def split: option.splits)
next
  case (Some n)
  then show ?thesis
    by (simp add: count_up_def map_of_bump)
qed

lemma map_of_tally_loop:
  "map_of (foldl (\<lambda>playersCount neighbour.
        if owner neighbour \<noteq> - 1 then count_up playersCount (owner neighbour)
        else playersCount) pc cs) k =
     (if k = - 1 \<or> votes_for k cs = 0 then map_of pc k
      else Some (votes_for k cs + (case map_of pc k of Some n \<Rightarrow> n | None \<Rightarrow> 0)))"
proof (induction cs arbitrary: pc)
  case Nil
  then show ?case by (simp add: votes_for_def)
next
  case (Cons c cs)
  show ?case
    unfolding foldl_Cons Cons.IH
    by (auto simp: map_of_count_up votes_for_def split: option.splits)
qed

lemma map_of_tally:
  "map_of (tally cs) k =
     (if k = - 1 \<or> votes_for k cs = 0 then None else Some (votes_for k cs))"
  unfolding tally_def map_of_tally_loop by simp

lemma set_object_keys: "set (object_keys pc) = dom (map_of pc)"
  by (auto simp: object_keys_def dom_map_of_conv_image_fst)

lemma foldl_winner:
  assumes "q \<in> K" and "set (a # as) \<subseteq> K"
    and "\<And>k. k \<in> K \<Longrightarrow> k \<noteq> q \<Longrightarrow> f q k = q \<and> f k q = q"
    and "f q q = q"
    and "\<And>k k'. k \<in> K \<Longrightarrow> k' \<in> K \<Longrightarrow> f k k' \<in> K"
    and "a = q \<or> q \<in> set as"
  shows "foldl f a as = q"
  using assms(2,6)
proof (induction as arbitrary: a)
  case Nil
  then show ?case by simp
next
  case (Cons b bs)
  have "set (f a b # bs) \<subseteq> K"
    using Cons.prems(1) assms(5) [of a b] by auto
  moreover have "f a b = q \<or> q \<in> set bs"
    using Cons.prems assms(3) [of a] assms(3) [of b] assms(4) by (cases "a = q"; cases "b = q") auto
  ultimately show ?case
    using Cons.IH [of "f a b"] by simp
qed

lemma most_majority:
  assumes "q \<noteq> - 1"
    and "\<And>r. r \<noteq> q \<Longrightarrow> r \<noteq> - 1 \<Longrightarrow> votes_for r cs < votes_for q cs"
    and "0 < votes_for q cs"
  shows "most cs = Inr q"
proof -
  let ?pc = "tally cs"
  let ?f = "\<lambda>a b. if count_gt ?pc a b then a else b"
  let ?K = "set (object_keys ?pc)"
  have K: "k \<in> ?K \<longleftrightarrow> k \<noteq> - 1 \<and> 0 < votes_for k cs" for k
    by (auto simp: set_object_keys map_of_tally dom_def)
  have q: "q \<in> ?K"
    using assms(1,3) by (simp add: K)
  then obtain a as where as: "rev (object_keys ?pc) = a # as"
    by (cases "rev (object_keys ?pc)") auto
  have gt: "count_gt ?pc k k' \<longleftrightarrow> votes_for k cs > votes_for k' cs"
    if "k \<in> ?K" "k' \<in> ?K" for k k'
    using that unfolding K by (simp add: count_gt_def map_of_tally)
  have "foldl ?f a as = q"
  proof (rule foldl_winner [where K = ?K])
    show "q \<in> ?K" by (rule q)
    show "set (a # as) \<subseteq> ?K" using arg_cong [OF as, of set] by simp
    show "?f q k = q \<and> ?f k q = q" if "k \<in> ?K" "k \<noteq> q" for k
      using gt [OF q that(1)] gt [OF that(1) q] assms(2) [OF that(2)] that(1) [unfolded K]
      by auto
    show "?f q q = q" by simp
    show "?f k k' \<in> ?K" if "k \<in> ?K" "k' \<in> ?K" for k k'
      using that by simp
    show "a = q \<or> q \<in> set as"
      using q arg_cong [OF as, of set] by auto
  qed
  then show ?thesis
    by (simp add: most_def Let_def as)
qed

lemma most_no_votes:
  assumes "\<forall>d\<in>set cs. owner d = - 1"
  shows "most cs = Inl TypeError"
proof -
  have none: "map_of (tally cs) k = None" for k
    using assms by (auto simp: map_of_tally votes_for_def filter_empty_conv)
  have "dom (map_of (tally cs)) = {}"
    by (simp add: dom_def none)
  then have "set (object_keys (tally cs)) = {}"
    by (simp only: set_object_keys)
  then have "object_keys (tally cs) = []"
    by simp
  then show ?thesis
    by (simp add: most_def)
qed

subsection \<open>The step\<close>

lemma grid_next_Inr:
  assumes "grid_next g turnMoves = Inr g'"
  obtains checked newBorns where
    "births (apply_moves g turnMoves) = Inr (checked, newBorns)"
    "g' = (apply_moves g turnMoves)\<lparr>cells := newBorns @
        filter (isHealthy (apply_moves g turnMoves)) (cells (apply_moves g turnMoves))\<rparr>"
  using assms by (auto simp: grid_next_def Let_def split: sum.splits prod.splits)

lemma newBorn_facts:
  assumes "births g = Inr (checked, newBorns)"
  shows "distinct checked" and "distinct (map coords newBorns)"
    and "b \<in> set newBorns \<longleftrightarrow>
           coords b \<in> candidates g \<and> \<not> live_at g (coords b) \<and> live_count g (coords b) = 3 \<and>
           most (live_neighbours g (coords b)) = Inr (owner b)"
    and "p \<in> candidates g \<Longrightarrow> \<not> live_at g p \<Longrightarrow> live_count g p = 3 \<Longrightarrow>
           \<exists>q. most (live_neighbours g p) = Inr q"
  using births_inv_births [OF assms] unfolding births_inv_def by auto

lemma newBorn_not_cell:
  assumes "births g = Inr (checked, newBorns)" and "b \<in> set newBorns"
  shows "b \<notin> set (cells g)"
proof
  assume b: "b \<in> set (cells g)"
  from newBorn_facts(3) [OF assms(1), of b] assms(2)
  have dead: "\<not> live_at g (coords b)" and three: "live_count g (coords b) = 3"
    by auto
  show False
  proof (cases "\<exists>u v. coords b = (Num u, Num v)")
    case True
    with b have "live_at g (coords b)"
      by (auto simp: live_at_iff)
    with dead show False by simp
  next
    case False
    then have "fst (coords b) = NaN \<or> snd (coords b) = NaN"
      by (cases "coords b"; cases "fst (coords b)"; cases "snd (coords b)") auto
    from live_count_NaN [OF this, of g] three show False by simp
  qed
qed

lemma newBorn_where:
  assumes "births g = Inr (checked, newBorns)"
  shows "(\<exists>b\<in>set newBorns. coords b = p) \<longleftrightarrow>
    p \<in> candidates g \<and> \<not> live_at g p \<and> live_count g p = 3"
proof
  assume "\<exists>b\<in>set newBorns. coords b = p"
  then show "p \<in> candidates g \<and> \<not> live_at g p \<and> live_count g p = 3"
    using newBorn_facts(3) [OF assms] by auto
next
  assume p: "p \<in> candidates g \<and> \<not> live_at g p \<and> live_count g p = 3"
  with newBorn_facts(4) [OF assms, of p] obtain q where q: "most (live_neighbours g p) = Inr q"
    by auto
  let ?b = "\<lparr>cell_x = fst p, cell_y = snd p, owner = q\<rparr>"
  have "coords ?b = p" by (simp add: coords_def)
  with p q newBorn_facts(3) [OF assms, of ?b] have "?b \<in> set newBorns" by simp
  with \<open>coords ?b = p\<close> show "\<exists>b\<in>set newBorns. coords b = p" by blast
qed

text \<open>
  When every live cell is owned by \<open>-1\<close> and some dead neighbour coordinate has exactly
  three live neighbours, the vote of the first such coordinate throws.
\<close>

lemma next_throws_when_unowned:
  assumes "\<forall>c\<in>set (cells (apply_moves g turnMoves)). owner c = - 1"
    and "p \<in> candidates (apply_moves g turnMoves)"
    and "\<not> live_at (apply_moves g turnMoves) p"
    and "live_count (apply_moves g turnMoves) p = 3"
  shows "grid_next g turnMoves = Inl TypeError"
proof (cases "grid_next g turnMoves")
  case (Inl e)
  then show ?thesis by (cases e) simp
next
  case (Inr g')
  let ?g1 = "apply_moves g turnMoves"
  from grid_next_Inr [OF Inr] obtain checked newBorns where
    births: "births ?g1 = Inr (checked, newBorns)" by blast
  from newBorn_facts(4) [OF births assms(2,3,4)] obtain q where
    q: "most (live_neighbours ?g1 p) = Inr q" by blast
  have "\<forall>d\<in>set (live_neighbours ?g1 p). owner d = - 1"
    using assms(1) by (auto simp: live_neighbours_def dest: first_at_mem)
  from most_no_votes [OF this] q show ?thesis by simp
qed

subsection \<open>Wrapping inside the grid\<close>

lemma shifts_eq:
  "shifts = [(- 1, - 1), (- 1, 0), (- 1, 1), (0, - 1), (0, 1), (1, - 1), (1, 0), (1, 1)]"
  by (simp add: shifts_def)

lemma wrap_mod:
  assumes "0 < n" and "- n \<le> r"
  shows "wrap n (Num r) = Num (r mod n)"
proof (cases "r < 0")
  case True
  with assms have "r mod n = r + n"
    by (smt (verit) mod_add_self2 mod_pos_pos_trivial)
  with True show ?thesis by (simp add: wrap_def)
next
  case False
  then have "sgn r * (\<bar>r\<bar> mod \<bar>n\<bar>) = r mod n"
    using assms(1) by (cases "r = 0") (simp_all add: sgn_if)
  with False assms(1) show ?thesis by (simp add: wrap_def)
qed

lemma neighbour_coords_torus:
  assumes "0 < n" and "0 \<le> a" and "0 \<le> b"
  shows "neighbour_coords n (Num a, Num b) = torus_neighbours n a b"
  using assms by (simp add: neighbour_coords_def torus_neighbours_def shifts_eq wrap_mod)

lemma shifts_range: "(i, j) \<in> set shifts \<Longrightarrow> i \<in> {- 1, 0, 1} \<and> j \<in> {- 1, 0, 1}"
  by (auto simp: shifts_eq)

lemma wrap_inside:
  assumes "0 < n" and "inside n u" and "i \<in> {- 1, 0, 1}"
  shows "inside n (wrap n (num_add u i))"
proof -
  from assms(2) obtain a where a: "u = Num a" "0 \<le> a" "a < n"
    by (cases u) auto
  have "wrap n (Num (a + i)) = Num ((a + i) mod n)"
    using assms(1,3) a(2) by (intro wrap_mod) auto
  with assms(1) show ?thesis
    by (simp add: a(1))
qed

lemma neighbour_coords_inside:
  assumes "0 < n" and "inside n (fst p)" and "inside n (snd p)"
    and "q \<in> set (neighbour_coords n p)"
  shows "inside n (fst q) \<and> inside n (snd q)"
proof -
  from assms(4) obtain i j where ij: "(i, j) \<in> set shifts"
    "q = (wrap n (num_add (fst p) i), wrap n (num_add (snd p) j))"
    by (auto simp: neighbour_coords_def)
  from shifts_range [OF ij(1)] wrap_inside [OF assms(1,2)] wrap_inside [OF assms(1,3)]
  show ?thesis by (simp add: ij(2))
qed

lemma in_bounds_iff:
  "in_bounds g \<longleftrightarrow>
     (\<forall>c\<in>set (cells g). inside (grid_size g) (cell_x c) \<and> inside (grid_size g) (cell_y c))"
  by (simp add: in_bounds_def list_all_iff)

lemma in_bounds_apply_move:
  assumes "in_bounds g"
    and "0 \<le> move_x m \<and> move_x m < grid_size g \<and> 0 \<le> move_y m \<and> move_y m < grid_size g"
  shows "in_bounds (apply_move g m)"
  unfolding in_bounds_iff
proof
  fix c assume "c \<in> set (cells (apply_move g m))"
  from apply_move_subset [OF this] assms show
    "inside (grid_size (apply_move g m)) (cell_x c) \<and> inside (grid_size (apply_move g m)) (cell_y c)"
    by (auto simp: in_bounds_iff coords_def target_def)
qed

lemma in_bounds_apply_moves:
  assumes "in_bounds g"
    and "\<forall>m\<in>set ms. 0 \<le> move_x m \<and> move_x m < grid_size g \<and> 0 \<le> move_y m \<and> move_y m < grid_size g"
  shows "in_bounds (apply_moves g ms)"
  using assms
proof (induction ms arbitrary: g)
  case Nil
  then show ?case by simp
next
  case (Cons m ms)
  from Cons.prems have "in_bounds (apply_move g m)"
    by (intro in_bounds_apply_move) auto
  from Cons.IH [OF this] Cons.prems(2) show ?case by simp
qed

lemma live_atI:
  assumes "d \<in> set (cells g)" and "coords d = (Num u, Num v)"
  shows "live_at g (Num u, Num v)"
proof -
  from assms have "(Num u, Num v) \<in> coords ` set (cells g)"
    by (metis imageI)
  then show ?thesis by (simp add: live_at_iff)
qed

lemma votes_for_two:
  "r \<noteq> q \<Longrightarrow> votes_for r cs + votes_for q cs \<le> length cs"
  unfolding votes_for_def by (induction cs) auto

subsection \<open>The first step of the test\<close>

lemma blinker_first: "grid_next blinker first_moves = Inr upright"
  by code_simp

section \<open>The properties\<close>

subsection \<open>C1: the birth test\<close>

text \<open>
  Claim C1. Take a call of \<open>next\<close> that returns, and the grid as it is after the moves
  of the call were applied. Let \<open>p\<close> be a birth candidate: a neighbour coordinate of a
  live cell of that grid that is itself dead. Then the next generation holds a cell at \<open>p\<close>
  if and only if exactly 3 of the 8 wrapped neighbour coordinates of \<open>p\<close> are live in
  that grid; with any other count, 2 and 4 included, no cell stands at \<open>p\<close>. (The theorem
  needs neither a positive size nor cells inside the grid.)
\<close>

theorem birth_iff_exactly_three:
  assumes "grid_next g turnMoves = Inr g'"
    and "c \<in> set (cells (apply_moves g turnMoves))"
    and "p \<in> set (neighbour_coords (grid_size g) (coords c))"
    and "\<not> live_at (apply_moves g turnMoves) p"
  shows "(\<exists>b\<in>set (cells g'). coords b = p) \<longleftrightarrow> live_count (apply_moves g turnMoves) p = 3"
proof -
  let ?g1 = "apply_moves g turnMoves"
  from grid_next_Inr [OF assms(1)] obtain checked newBorns where
    births: "births ?g1 = Inr (checked, newBorns)" and
    g': "g' = ?g1\<lparr>cells := newBorns @ filter (isHealthy ?g1) (cells ?g1)\<rparr>"
    by blast
  from assms(2,3) have cand: "p \<in> candidates ?g1"
    by (auto simp: candidates_def)
  have "coords b \<noteq> p" if "b \<in> set (filter (isHealthy ?g1) (cells ?g1))" for b
    using that survivor_live_at [of b ?g1] assms(4) by auto
  then have "(\<exists>b\<in>set (cells g'). coords b = p) \<longleftrightarrow> (\<exists>b\<in>set newBorns. coords b = p)"
    unfolding g' by auto
  also have "\<dots> \<longleftrightarrow> live_count ?g1 p = 3"
    using newBorn_where [OF births, of p] cand assms(4) by simp
  finally show ?thesis .
qed

text \<open>
  In the first step of the test the candidate \<open>(3, 2)\<close> above the middle cell has three
  live neighbours and is born.
\<close>

theorem birth_iff_exactly_three_witness:
  "grid_next blinker first_moves = Inr upright
   \<and> \<lparr>cell_x = Num 3, cell_y = Num 3, owner = 1\<rparr> \<in> set (cells (apply_moves blinker first_moves))
   \<and> (Num 3, Num 2) \<in> set (neighbour_coords (grid_size blinker)
         (coords \<lparr>cell_x = Num 3, cell_y = Num 3, owner = 1\<rparr>))
   \<and> \<not> live_at (apply_moves blinker first_moves) (Num 3, Num 2)
   \<and> live_count (apply_moves blinker first_moves) (Num 3, Num 2) = 3
   \<and> (\<exists>b\<in>set (cells upright). coords b = (Num 3, Num 2))"
proof -
  have h2: "\<lparr>cell_x = Num 3, cell_y = Num 3, owner = 1\<rparr> \<in> set (cells (apply_moves blinker first_moves))"
    by code_simp
  have h3: "(Num 3, Num 2) \<in> set (neighbour_coords (grid_size blinker)
         (coords \<lparr>cell_x = Num 3, cell_y = Num 3, owner = 1\<rparr>))"
    by code_simp
  have h4: "\<not> live_at (apply_moves blinker first_moves) (Num 3, Num 2)"
    by code_simp
  have three: "live_count (apply_moves blinker first_moves) (Num 3, Num 2) = 3"
    by code_simp
  from birth_iff_exactly_three [OF blinker_first h2 h3 h4] three
  have "\<exists>b\<in>set (cells upright). coords b = (Num 3, Num 2)" by simp
  with blinker_first h2 h3 h4 three show ?thesis by blast
qed

subsection \<open>C2: the survival test\<close>

text \<open>
  Claim C2. Take a call of \<open>next\<close> that returns, and a cell \<open>c\<close> of the grid as it is
  after the moves were applied. Then \<open>c\<close> is in the next generation if and only if the
  number of live cells at its 8 wrapped neighbour coordinates is 2 or 3. When the grid
  holds at most one cell per coordinate before the call, that number is the number of
  live coordinates among the 8, the count the birth test uses: \<open>c\<close> is in the next
  generation if and only if that count is 2 or 3, and absent for every other count.
\<close>

theorem survival_iff_two_or_three:
  assumes "grid_next g turnMoves = Inr g'"
    and "c \<in> set (cells (apply_moves g turnMoves))"
  shows "(c \<in> set (cells g') \<longleftrightarrow>
            length (live_cells_around (apply_moves g turnMoves) (coords c)) = 2 \<or>
            length (live_cells_around (apply_moves g turnMoves) (coords c)) = 3)
    \<and> (distinct (map coords (cells g)) \<longrightarrow>
          (c \<in> set (cells g') \<longleftrightarrow>
             live_count (apply_moves g turnMoves) (coords c) = 2 \<or>
             live_count (apply_moves g turnMoves) (coords c) = 3))"
proof -
  let ?g1 = "apply_moves g turnMoves"
  from grid_next_Inr [OF assms(1)] obtain checked newBorns where
    births: "births ?g1 = Inr (checked, newBorns)" and
    g': "g' = ?g1\<lparr>cells := newBorns @ filter (isHealthy ?g1) (cells ?g1)\<rparr>"
    by blast
  from newBorn_not_cell [OF births] assms(2) have "c \<notin> set newBorns" by blast
  then have healthy: "c \<in> set (cells g') \<longleftrightarrow> isHealthy ?g1 c"
    unfolding g' using assms(2) by simp
  have 1: "c \<in> set (cells g') \<longleftrightarrow>
      length (live_cells_around ?g1 (coords c)) = 2 \<or> length (live_cells_around ?g1 (coords c)) = 3"
    unfolding healthy
    by (simp add: isHealthy_def Let_def getAliveNeighboursOf_eq live_cells_around_def)
  have 2: "c \<in> set (cells g') \<longleftrightarrow> live_count ?g1 (coords c) = 2 \<or> live_count ?g1 (coords c) = 3"
    if "distinct (map coords (cells g))"
  proof -
    from that have "distinct (map coords (cells ?g1))"
      by (rule distinct_apply_moves)
    then show ?thesis
      unfolding healthy by (rule isHealthy_distinct)
  qed
  from 1 2 show ?thesis by blast
qed

text \<open>
  In the first step of the test the middle cell has two live neighbours and stays; the
  cell a move created at \<open>(10, 10)\<close> has none and is gone.
\<close>

theorem survival_iff_two_or_three_witness:
  "grid_next blinker first_moves = Inr upright
   \<and> \<lparr>cell_x = Num 3, cell_y = Num 3, owner = 1\<rparr> \<in> set (cells (apply_moves blinker first_moves))
   \<and> distinct (map coords (cells blinker))
   \<and> live_count (apply_moves blinker first_moves)
        (coords \<lparr>cell_x = Num 3, cell_y = Num 3, owner = 1\<rparr>) = 2
   \<and> \<lparr>cell_x = Num 3, cell_y = Num 3, owner = 1\<rparr> \<in> set (cells upright)
   \<and> \<lparr>cell_x = Num 10, cell_y = Num 10, owner = 1\<rparr> \<in> set (cells (apply_moves blinker first_moves))
   \<and> live_count (apply_moves blinker first_moves)
        (coords \<lparr>cell_x = Num 10, cell_y = Num 10, owner = 1\<rparr>) = 0
   \<and> \<lparr>cell_x = Num 10, cell_y = Num 10, owner = 1\<rparr> \<notin> set (cells upright)"
proof -
  have c1: "\<lparr>cell_x = Num 3, cell_y = Num 3, owner = 1\<rparr> \<in> set (cells (apply_moves blinker first_moves))"
    by code_simp
  have c2: "\<lparr>cell_x = Num 10, cell_y = Num 10, owner = 1\<rparr> \<in> set (cells (apply_moves blinker first_moves))"
    by code_simp
  have d: "distinct (map coords (cells blinker))"
    by code_simp
  have n1: "live_count (apply_moves blinker first_moves)
        (coords \<lparr>cell_x = Num 3, cell_y = Num 3, owner = 1\<rparr>) = 2"
    by code_simp
  have n2: "live_count (apply_moves blinker first_moves)
        (coords \<lparr>cell_x = Num 10, cell_y = Num 10, owner = 1\<rparr>) = 0"
    by code_simp
  from survival_iff_two_or_three [OF blinker_first c1, THEN conjunct2, rule_format, OF d] n1
  have s1: "\<lparr>cell_x = Num 3, cell_y = Num 3, owner = 1\<rparr> \<in> set (cells upright)" by simp
  from survival_iff_two_or_three [OF blinker_first c2, THEN conjunct2, rule_format, OF d] n2
  have s2: "\<lparr>cell_x = Num 10, cell_y = Num 10, owner = 1\<rparr> \<notin> set (cells upright)" by simp
  from blinker_first c1 c2 d n1 n2 s1 s2 show ?thesis by blast
qed

subsection \<open>C3: toroidal adjacency\<close>

text \<open>
  Claim C3. On a grid of positive size, for a cell \<open>c\<close> at a coordinate \<open>(a, b)\<close> inside
  the grid, the 8 coordinates \<open>(a+i, b+j)\<close> wrapped by
  \<open>raw < 0 ? raw + size : raw % size\<close> are these coordinates modulo the size, and
  the coordinates that the birth count (\<open>shouldBeBorn\<close>) and the survival count
  (\<open>getNeighboursOf\<close>, \<open>getAliveNeighboursOf\<close>) go through are the 8 coordinates
  \<open>(a+i, b+j)\<close>, \<open>(i, j) \<noteq> (0, 0)\<close>, taken modulo the size: the birth count collects the
  first live cell at each of them and tests that there are 3, the survival count collects
  the cells of the grid at each of them. In particular a live cell at \<open>(0, b)\<close> is counted
  by both for a cell at \<open>(size-1, b)\<close>, and a live cell at \<open>(size-1, b)\<close> is counted by
  both for a cell at \<open>(0, b)\<close>.
\<close>

theorem toroidal_adjacency:
  assumes "0 < grid_size g"
    and "0 \<le> a" and "a < grid_size g" and "0 \<le> b" and "b < grid_size g"
    and "coords c = (Num a, Num b)"
  shows "neighbour_coords (grid_size g) (coords c) = torus_neighbours (grid_size g) a b
    \<and> snd (shouldBeBorn g c) = concat (map (first_at g) (torus_neighbours (grid_size g) a b))
    \<and> fst (shouldBeBorn g c) = (length (filter (live_at g) (torus_neighbours (grid_size g) a b)) = 3)
    \<and> set (map coords (getNeighboursOf g c)) = set (torus_neighbours (grid_size g) a b)
    \<and> getAliveNeighboursOf g c = concat (map (cells_at g) (torus_neighbours (grid_size g) a b))
    \<and> (a = grid_size g - 1 \<longrightarrow> (\<forall>d\<in>set (cells g). coords d = (Num 0, Num b) \<longrightarrow>
          d \<in> set (getAliveNeighboursOf g c) \<and>
          (\<exists>d'\<in>set (snd (shouldBeBorn g c)). coords d' = (Num 0, Num b))))
    \<and> (a = 0 \<longrightarrow> (\<forall>d\<in>set (cells g). coords d = (Num (grid_size g - 1), Num b) \<longrightarrow>
          d \<in> set (getAliveNeighboursOf g c) \<and>
          (\<exists>d'\<in>set (snd (shouldBeBorn g c)). coords d' = (Num (grid_size g - 1), Num b))))"
proof -
  let ?n = "grid_size g"
  let ?T = "torus_neighbours ?n a b"
  have T: "neighbour_coords ?n (coords c) = ?T"
    unfolding assms(6) using assms(1,2,4) by (rule neighbour_coords_torus)
  have birth: "shouldBeBorn g c = (length (filter (live_at g) ?T) = 3, concat (map (first_at g) ?T))"
    by (simp add: shouldBeBorn_eq live_count_def live_neighbours_def T)
  have alive: "getAliveNeighboursOf g c = concat (map (cells_at g) ?T)"
    by (simp add: getAliveNeighboursOf_eq T)
  have "set (map coords (if length (cells_at g p) \<noteq> 0 then cells_at g p else [Cell (fst p) (snd p)]))
      = {p}" for p
  proof (cases "cells_at g p = []")
    case True
    then show ?thesis by simp
  next
    case False
    have "coords d = p" if "d \<in> set (cells_at g p)" for d
      using that by (cases p) (auto simp: cells_at_mem equals_iff)
    with False show ?thesis
      by (cases "cells_at g p") auto
  qed
  then have all: "set (map coords (getNeighboursOf g c)) = set ?T"
    unfolding getNeighboursOf_eq T by (simp only: map_concat set_concat set_map image_image) auto
  have counted: "d \<in> set (getAliveNeighboursOf g c) \<and>
      (\<exists>d'\<in>set (snd (shouldBeBorn g c)). coords d' = p)"
    if "p \<in> set ?T" "d \<in> set (cells g)" "coords d = p" for p d
  proof -
    from that(1) obtain u v where p: "p = (Num u, Num v)"
      by (auto simp: torus_neighbours_def)
    from that(2,3) have "d \<in> set (cells_at g p)"
      by (simp add: cells_at_mem equals_iff p)
    with that(1) have 1: "d \<in> set (getAliveNeighboursOf g c)"
      unfolding alive by auto
    from that(2,3) have "live_at g p"
      unfolding p by (rule live_atI)
    then obtain d' where d': "d' \<in> set (first_at g p)"
      using first_at_live [of g p] by (cases "first_at g p") auto
    from first_at_mem [OF d'] d' that(1) have "\<exists>d'\<in>set (snd (shouldBeBorn g c)). coords d' = p"
      unfolding birth by auto
    with 1 show ?thesis by simp
  qed
  have right: "(Num 0, Num b) \<in> set ?T" if "a = ?n - 1"
    using that assms(1,4,5) by (simp add: torus_neighbours_def)
  have left: "(Num (?n - 1), Num b) \<in> set ?T" if "a = 0"
  proof -
    have "(- 1) mod ?n = ?n - 1"
      using assms(1) by (smt (verit) mod_add_self2 mod_pos_pos_trivial)
    with that assms(4,5) show ?thesis by (simp add: torus_neighbours_def)
  qed
  have b1: "snd (shouldBeBorn g c) = concat (map (first_at g) ?T)"
    and b2: "fst (shouldBeBorn g c) = (length (filter (live_at g) ?T) = 3)"
    by (simp_all add: birth)
  have c5: "a = ?n - 1 \<longrightarrow> (\<forall>d\<in>set (cells g). coords d = (Num 0, Num b) \<longrightarrow>
          d \<in> set (getAliveNeighboursOf g c) \<and>
          (\<exists>d'\<in>set (snd (shouldBeBorn g c)). coords d' = (Num 0, Num b)))"
    using counted [OF right] by blast
  have c6: "a = 0 \<longrightarrow> (\<forall>d\<in>set (cells g). coords d = (Num (?n - 1), Num b) \<longrightarrow>
          d \<in> set (getAliveNeighboursOf g c) \<and>
          (\<exists>d'\<in>set (snd (shouldBeBorn g c)). coords d' = (Num (?n - 1), Num b)))"
    using counted [OF left] by blast
  show ?thesis
    by (intro conjI) (rule T b1 b2 all alive c5 c6)+
qed

text \<open>
  On a grid of size 5 the cells at \<open>(0, 2)\<close> and \<open>(4, 2)\<close> count each other.
\<close>

theorem toroidal_adjacency_witness:
  "0 < grid_size seam
   \<and> coords \<lparr>cell_x = Num 4, cell_y = Num 2, owner = 2\<rparr> = (Num (grid_size seam - 1), Num 2)
   \<and> \<lparr>cell_x = Num 0, cell_y = Num 2, owner = 1\<rparr> \<in> set (cells seam)
   \<and> \<lparr>cell_x = Num 0, cell_y = Num 2, owner = 1\<rparr>
        \<in> set (getAliveNeighboursOf seam \<lparr>cell_x = Num 4, cell_y = Num 2, owner = 2\<rparr>)
   \<and> (\<exists>d'\<in>set (snd (shouldBeBorn seam \<lparr>cell_x = Num 4, cell_y = Num 2, owner = 2\<rparr>)).
          coords d' = (Num 0, Num 2))
   \<and> coords \<lparr>cell_x = Num 0, cell_y = Num 2, owner = 1\<rparr> = (Num 0, Num 2)
   \<and> \<lparr>cell_x = Num 4, cell_y = Num 2, owner = 2\<rparr> \<in> set (cells seam)
   \<and> \<lparr>cell_x = Num 4, cell_y = Num 2, owner = 2\<rparr>
        \<in> set (getAliveNeighboursOf seam \<lparr>cell_x = Num 0, cell_y = Num 2, owner = 1\<rparr>)
   \<and> (\<exists>d'\<in>set (snd (shouldBeBorn seam \<lparr>cell_x = Num 0, cell_y = Num 2, owner = 1\<rparr>)).
          coords d' = (Num (grid_size seam - 1), Num 2))"
proof -
  let ?l = "\<lparr>cell_x = Num 0, cell_y = Num 2, owner = 1\<rparr>"
  let ?r = "\<lparr>cell_x = Num 4, cell_y = Num 2, owner = 2\<rparr>"
  have n: "grid_size seam = 5" by code_simp
  have pos: "0 < grid_size seam" by (simp add: n)
  have cl: "coords ?l = (Num 0, Num 2)" and cr: "coords ?r = (Num 4, Num 2)"
    by (simp_all add: coords_def)
  have ml: "?l \<in> set (cells seam)" and mr: "?r \<in> set (cells seam)"
    by code_simp+
  have r4: "(0::int) \<le> 4" "4 < grid_size seam" and r0: "(0::int) \<le> 0" "0 < grid_size seam"
    and r2: "(0::int) \<le> 2" "2 < grid_size seam"
    by (simp_all add: n)
  have "4 = grid_size seam - 1 \<longrightarrow> (\<forall>d\<in>set (cells seam). coords d = (Num 0, Num 2) \<longrightarrow>
          d \<in> set (getAliveNeighboursOf seam ?r) \<and>
          (\<exists>d'\<in>set (snd (shouldBeBorn seam ?r)). coords d' = (Num 0, Num 2)))"
    by (rule conjunct1 [OF conjunct2 [OF conjunct2 [OF conjunct2 [OF conjunct2 [OF conjunct2
        [OF toroidal_adjacency [OF pos r4 r2 cr]]]]]]])
  with ml cl have 1: "?l \<in> set (getAliveNeighboursOf seam ?r) \<and>
      (\<exists>d'\<in>set (snd (shouldBeBorn seam ?r)). coords d' = (Num 0, Num 2))"
    by (simp add: n)
  have "(0::int) = 0 \<longrightarrow> (\<forall>d\<in>set (cells seam). coords d = (Num (grid_size seam - 1), Num 2) \<longrightarrow>
          d \<in> set (getAliveNeighboursOf seam ?l) \<and>
          (\<exists>d'\<in>set (snd (shouldBeBorn seam ?l)). coords d' = (Num (grid_size seam - 1), Num 2)))"
    by (rule conjunct2 [OF conjunct2 [OF conjunct2 [OF conjunct2 [OF conjunct2 [OF conjunct2
        [OF toroidal_adjacency [OF pos r0 r2 cl]]]]]]])
  with mr cr have 2: "?r \<in> set (getAliveNeighboursOf seam ?l) \<and>
      (\<exists>d'\<in>set (snd (shouldBeBorn seam ?l)). coords d' = (Num (grid_size seam - 1), Num 2))"
    by (simp add: n)
  from pos cl cr ml mr 1 2 show ?thesis
    by (simp add: n)
qed

subsection \<open>C4: moves are toggles\<close>

text \<open>
  Claim C4. On a grid with at most one cell per coordinate, a move whose coordinate is
  live removes the cell at exactly that coordinate, whoever owns it and whoever moves,
  and leaves every other cell; a move whose coordinate is dead appends a cell at exactly
  that coordinate, unwrapped, owned by the player of the move. The moves of a batch are
  applied one after the other in the order of the batch. A coordinate that exactly two
  moves of a batch toggle is live after the batch if and only if it was live before.
\<close>

theorem moves_toggle:
  assumes "distinct (map coords (cells g))"
  shows "(live_at g (target m) \<longrightarrow>
            set (cells (apply_move g m)) = {c \<in> set (cells g). coords c \<noteq> target m})
    \<and> (\<not> live_at g (target m) \<longrightarrow>
            cells (apply_move g m) =
              cells g @ [\<lparr>cell_x = Num (move_x m), cell_y = Num (move_y m), owner = playerid m\<rparr>])
    \<and> apply_moves g (m # turnMoves) = apply_moves (apply_move g m) turnMoves
    \<and> (length (filter (\<lambda>m'. target m' = p) turnMoves) = 2 \<longrightarrow>
            live_at (apply_moves g turnMoves) p = live_at g p)"
proof -
  have 1: "set (cells (apply_move g m)) = {c \<in> set (cells g). coords c \<noteq> target m}"
    if live: "live_at g (target m)"
  proof -
    have gone: "\<not> live_at (apply_move g m) (target m)"
      using live live_at_apply_move_target [OF assms, of m] by simp
    have "c \<in> set (cells g) \<and> coords c \<noteq> target m" if c: "c \<in> set (cells (apply_move g m))" for c
    proof -
      have "coords c \<noteq> target m"
      proof
        assume "coords c = target m"
        then have "coords c = (Num (move_x m), Num (move_y m))" by (simp add: target_def)
        from live_atI [OF c this] gone show False by (simp add: target_def)
      qed
      with apply_move_subset [OF c] show ?thesis by simp
    qed
    moreover have "c \<in> set (cells (apply_move g m))"
      if "c \<in> set (cells g)" "coords c \<noteq> target m" for c
      using that by (rule apply_move_other)
    ultimately show ?thesis by blast
  qed
  have 2: "cells (apply_move g m) =
      cells g @ [\<lparr>cell_x = Num (move_x m), cell_y = Num (move_y m), owner = playerid m\<rparr>]"
    if "\<not> live_at g (target m)"
    using that by (rule apply_move_dead)
  have 3: "apply_moves g (m # turnMoves) = apply_moves (apply_move g m) turnMoves"
    by simp
  have 4: "live_at (apply_moves g turnMoves) p = live_at g p"
    if "length (filter (\<lambda>m'. target m' = p) turnMoves) = 2"
    using that by (simp add: live_at_apply_moves [OF assms])
  from 1 2 3 4 show ?thesis by blast
qed

text \<open>
  On the grid of the test: a move by player 2 on the live \<open>(3, 3)\<close>, a move on the dead
  \<open>(7, 7)\<close>, and a batch that toggles \<open>(3, 3)\<close> twice.
\<close>

theorem moves_toggle_witness:
  "distinct (map coords (cells blinker))
   \<and> live_at blinker (target \<lparr>move_x = 3, move_y = 3, playerid = 2\<rparr>)
   \<and> set (cells (apply_move blinker \<lparr>move_x = 3, move_y = 3, playerid = 2\<rparr>))
       = {c \<in> set (cells blinker). coords c \<noteq> target \<lparr>move_x = 3, move_y = 3, playerid = 2\<rparr>}
   \<and> \<not> live_at blinker (target \<lparr>move_x = 7, move_y = 7, playerid = 2\<rparr>)
   \<and> cells (apply_move blinker \<lparr>move_x = 7, move_y = 7, playerid = 2\<rparr>)
       = cells blinker @ [\<lparr>cell_x = Num 7, cell_y = Num 7, owner = 2\<rparr>]
   \<and> length (filter (\<lambda>m'. target m' = (Num 3, Num 3)) retoggle) = 2
   \<and> live_at (apply_moves blinker retoggle) (Num 3, Num 3)
   \<and> live_at blinker (Num 3, Num 3)"
proof -
  let ?kill = "\<lparr>move_x = 3, move_y = 3, playerid = 2\<rparr>"
  let ?make = "\<lparr>move_x = 7, move_y = 7, playerid = 2\<rparr>"
  have d: "distinct (map coords (cells blinker))" by code_simp
  have l1: "live_at blinker (target ?kill)" by code_simp
  have l2: "\<not> live_at blinker (target ?make)" by code_simp
  have two: "length (filter (\<lambda>m'. target m' = (Num 3, Num 3)) retoggle) = 2" by code_simp
  have l3: "live_at blinker (Num 3, Num 3)" by code_simp
  note t = moves_toggle [OF d]
  from t [of ?kill] l1
  have 1: "set (cells (apply_move blinker ?kill))
       = {c \<in> set (cells blinker). coords c \<noteq> target ?kill}" by blast
  from t [of ?make] l2
  have 2: "cells (apply_move blinker ?make)
       = cells blinker @ [\<lparr>cell_x = Num 7, cell_y = Num 7, owner = 2\<rparr>]" by simp
  from t [of _ retoggle "(Num 3, Num 3)"] two l3
  have 3: "live_at (apply_moves blinker retoggle) (Num 3, Num 3)" by blast
  from d l1 l2 two l3 1 2 3 show ?thesis by blast
qed

subsection \<open>C5: the ownership vote\<close>

text \<open>
  Claim C5. Take a call of \<open>next\<close> that returns and a cell \<open>b\<close> of the next generation
  whose coordinate was dead after the moves: a newborn. Tally the owners of the live cells
  found at its 8 wrapped neighbour coordinates. If a player \<open>q\<close> other than \<open>-1\<close> has a
  strictly higher tally than every other player that is not \<open>-1\<close> (whatever the number of
  neighbours owned by \<open>-1\<close>), then \<open>q\<close> owns \<open>b\<close>. In particular, when the three
  neighbours are owned by the players 1, 1 and 2, player 1 owns \<open>b\<close>.
\<close>

theorem newborn_owner_is_majority:
  assumes "grid_next g turnMoves = Inr g'"
    and "b \<in> set (cells g')"
    and "\<not> live_at (apply_moves g turnMoves) (coords b)"
  shows "(q \<noteq> - 1 \<and>
          (\<forall>r. r \<noteq> q \<and> r \<noteq> - 1 \<longrightarrow>
             votes_for r (live_neighbours (apply_moves g turnMoves) (coords b))
               < votes_for q (live_neighbours (apply_moves g turnMoves) (coords b)))
          \<longrightarrow> owner b = q)
    \<and> (length (live_neighbours (apply_moves g turnMoves) (coords b)) = 3 \<and>
        votes_for 1 (live_neighbours (apply_moves g turnMoves) (coords b)) = 2 \<and>
        votes_for 2 (live_neighbours (apply_moves g turnMoves) (coords b)) = 1
          \<longrightarrow> owner b = 1)"
proof -
  let ?g1 = "apply_moves g turnMoves"
  let ?L = "live_neighbours ?g1 (coords b)"
  from grid_next_Inr [OF assms(1)] obtain checked newBorns where
    births: "births ?g1 = Inr (checked, newBorns)" and
    g': "g' = ?g1\<lparr>cells := newBorns @ filter (isHealthy ?g1) (cells ?g1)\<rparr>"
    by blast
  have "b \<notin> set (filter (isHealthy ?g1) (cells ?g1))"
    using survivor_live_at [of b ?g1] assms(3) by auto
  with assms(2) have "b \<in> set newBorns" by (auto simp: g')
  with newBorn_facts(3) [OF births, of b] have vote: "most ?L = Inr (owner b)"
    by simp
  have gen: "owner b = q"
    if q: "q \<noteq> - 1" and top: "\<And>r. r \<noteq> q \<Longrightarrow> r \<noteq> - 1 \<Longrightarrow> votes_for r ?L < votes_for q ?L" for q
  proof -
    obtain r where r: "r \<noteq> q" "r \<noteq> - 1"
      by (cases "q = 0") (auto intro: that [of 1] that [of 0])
    from top [OF r] have "0 < votes_for q ?L" by simp
    from most_majority [OF q top this] vote show ?thesis by simp
  qed
  have "owner b = 1"
    if "length ?L = 3" "votes_for 1 ?L = 2" "votes_for 2 ?L = 1"
  proof (rule gen)
    show "(1::int) \<noteq> - 1" by simp
    show "votes_for r ?L < votes_for 1 ?L" if "r \<noteq> 1" "r \<noteq> - 1" for r
      using votes_for_two [OF that(1), of ?L] \<open>length ?L = 3\<close> \<open>votes_for 1 ?L = 2\<close> by simp
  qed
  with gen show ?thesis by blast
qed

text \<open>
  With the third cell of the test owned by player 2, the newborn at \<open>(3, 2)\<close> has
  neighbours owned by 1, 1 and 2, and is owned by player 1.
\<close>

theorem newborn_owner_is_majority_witness:
  "grid_next contested [] = Inr \<lparr>grid_size = 50, cells =
       [\<lparr>cell_x = Num 3, cell_y = Num 2, owner = 1\<rparr>,
        \<lparr>cell_x = Num 3, cell_y = Num 4, owner = 1\<rparr>,
        \<lparr>cell_x = Num 3, cell_y = Num 3, owner = 1\<rparr>]\<rparr>
   \<and> \<not> live_at (apply_moves contested []) (coords \<lparr>cell_x = Num 3, cell_y = Num 2, owner = 1\<rparr>)
   \<and> map owner (live_neighbours (apply_moves contested [])
        (coords \<lparr>cell_x = Num 3, cell_y = Num 2, owner = 1\<rparr>)) = [1, 1, 2]
   \<and> owner \<lparr>cell_x = Num 3, cell_y = Num 2, owner = 1\<rparr> = 1"
proof -
  let ?b = "\<lparr>cell_x = Num 3, cell_y = Num 2, owner = 1\<rparr>"
  let ?g' = "\<lparr>grid_size = 50, cells =
       [\<lparr>cell_x = Num 3, cell_y = Num 2, owner = 1\<rparr>,
        \<lparr>cell_x = Num 3, cell_y = Num 4, owner = 1\<rparr>,
        \<lparr>cell_x = Num 3, cell_y = Num 3, owner = 1\<rparr>]\<rparr>"
  let ?L = "live_neighbours (apply_moves contested []) (coords ?b)"
  have h1: "grid_next contested [] = Inr ?g'" by code_simp
  have h2: "?b \<in> set (cells ?g')" by simp
  have h3: "\<not> live_at (apply_moves contested []) (coords ?b)" by code_simp
  have owners: "map owner ?L = [1, 1, 2]" by code_simp
  have L: "length ?L = 3" "votes_for 1 ?L = 2" "votes_for 2 ?L = 1"
    by code_simp+
  from newborn_owner_is_majority [OF h1 h2 h3, THEN conjunct2] L
  have "owner ?b = 1" by blast
  with h1 h3 owners show ?thesis by blast
qed

subsection \<open>C6: \<open>next\<close> can throw\<close>

text \<open>
  Claim C6 says that \<open>next\<close> never raises a runtime error on integer coordinates and
  player ids, also when live cells are owned by \<open>-1\<close>. It does: on an empty grid of
  size 50, three moves in a row by the player id \<open>-1\<close> give three live cells owned by
  \<open>-1\<close>; the coordinate above the middle one has exactly three live neighbours, none with
  a vote, and \<open>reduce\<close> on the empty list of keys throws a \<open>TypeError\<close>
  (lemma \<open>next_throws_when_unowned\<close> has the general case).
\<close>

theorem next_throws_on_unowned_birth:
  "grid_next (Grid 50) unowned_moves = Inl TypeError"
  by code_simp

subsection \<open>C7: one cell per coordinate\<close>

text \<open>
  Claim C7. If the grid holds at most one cell per coordinate before a call of \<open>next\<close>
  that returns, then it does so afterwards. The next generation is the newborn cells
  followed by the surviving ones; no coordinate was entered twice in \<open>checked\<close>, so each
  dead coordinate was evaluated at most once; the newborn cells have pairwise distinct
  coordinates, and none of them is the coordinate of a surviving cell.
\<close>

theorem coordinates_stay_unique:
  assumes "distinct (map coords (cells g))"
    and "grid_next g turnMoves = Inr g'"
  shows "distinct (map coords (cells g')) \<and>
    (\<exists>checked newBorns.
       births (apply_moves g turnMoves) = Inr (checked, newBorns) \<and>
       cells g' = newBorns @
         filter (isHealthy (apply_moves g turnMoves)) (cells (apply_moves g turnMoves)) \<and>
       distinct checked \<and> distinct (map coords newBorns) \<and>
       coords ` set newBorns \<inter>
         coords ` set (filter (isHealthy (apply_moves g turnMoves)) (cells (apply_moves g turnMoves)))
         = {})"
proof -
  let ?g1 = "apply_moves g turnMoves"
  let ?still = "filter (isHealthy ?g1) (cells ?g1)"
  from grid_next_Inr [OF assms(2)] obtain checked newBorns where
    births: "births ?g1 = Inr (checked, newBorns)" and
    g': "g' = ?g1\<lparr>cells := newBorns @ ?still\<rparr>"
    by blast
  have d: "distinct (map coords (cells ?g1))"
    using assms(1) by (rule distinct_apply_moves)
  then have ds: "distinct (map coords ?still)"
    by (rule distinct_map_filter)
  have dn: "distinct (map coords newBorns)" and dc: "distinct checked"
    using newBorn_facts(1,2) [OF births] by auto
  have disj: "coords ` set newBorns \<inter> coords ` set ?still = {}"
  proof -
    have "coords b \<noteq> coords s" if "b \<in> set newBorns" "s \<in> set ?still" for b s
      using newBorn_facts(3) [OF births, of b] that survivor_live_at [of s ?g1] by auto
    then show ?thesis by blast
  qed
  from dn ds disj have "distinct (map coords (cells g'))"
    by (simp add: g')
  moreover have "cells g' = newBorns @ ?still" by (simp add: g')
  ultimately show ?thesis
    using births dc dn disj by blast
qed

theorem coordinates_stay_unique_witness:
  "distinct (map coords (cells blinker))
   \<and> grid_next blinker first_moves = Inr upright
   \<and> distinct (map coords (cells upright))"
proof -
  have d: "distinct (map coords (cells blinker))" by code_simp
  from coordinates_stay_unique [OF d blinker_first]
  have "distinct (map coords (cells upright))" by blast
  with d blinker_first show ?thesis by blast
qed

subsection \<open>C8: cells stay inside the grid\<close>

text \<open>
  Claim C8. On a grid of positive size whose live cells all have coordinates in
  \<open>[0, size)\<close>, a call of \<open>next\<close> that returns, with every move in \<open>[0, size)\<close> too,
  leaves every live cell with coordinates in \<open>[0, size)\<close>, and the size as it was.
\<close>

theorem next_keeps_in_bounds:
  assumes "0 < grid_size g"
    and "in_bounds g"
    and "\<forall>m\<in>set turnMoves.
           0 \<le> move_x m \<and> move_x m < grid_size g \<and> 0 \<le> move_y m \<and> move_y m < grid_size g"
    and "grid_next g turnMoves = Inr g'"
  shows "in_bounds g' \<and> grid_size g' = grid_size g"
proof -
  let ?g1 = "apply_moves g turnMoves"
  let ?n = "grid_size g"
  from grid_next_Inr [OF assms(4)] obtain checked newBorns where
    births: "births ?g1 = Inr (checked, newBorns)" and
    g': "g' = ?g1\<lparr>cells := newBorns @ filter (isHealthy ?g1) (cells ?g1)\<rparr>"
    by blast
  have size: "grid_size g' = ?n" by (simp add: g')
  have b1: "in_bounds ?g1"
    using assms(2,3) by (rule in_bounds_apply_moves)
  have "inside ?n (cell_x b) \<and> inside ?n (cell_y b)" if "b \<in> set newBorns" for b
  proof -
    from newBorn_facts(3) [OF births, of b] that have "coords b \<in> candidates ?g1" by simp
    then obtain c where c: "c \<in> set (cells ?g1)"
      "coords b \<in> set (neighbour_coords ?n (coords c))"
      by (auto simp: candidates_def)
    from b1 c(1) have "inside ?n (fst (coords c))" "inside ?n (snd (coords c))"
      by (auto simp: in_bounds_iff coords_def)
    from neighbour_coords_inside [OF assms(1) this c(2)] show ?thesis
      by (simp add: coords_def)
  qed
  moreover have "inside ?n (cell_x s) \<and> inside ?n (cell_y s)"
    if "s \<in> set (filter (isHealthy ?g1) (cells ?g1))" for s
    using that b1 by (auto simp: in_bounds_iff)
  ultimately have "in_bounds g'"
    unfolding in_bounds_iff size by (auto simp: g')
  with size show ?thesis by simp
qed

text \<open>
  The first step of the edge test, on a grid of size 5, where cells are born across the
  seam.
\<close>

theorem next_keeps_in_bounds_witness:
  "0 < grid_size edge \<and> in_bounds edge
   \<and> list_all (\<lambda>m. 0 \<le> move_x m \<and> move_x m < grid_size edge \<and>
                  0 \<le> move_y m \<and> move_y m < grid_size edge) edge_moves
   \<and> grid_next edge edge_moves = Inr edge_next
   \<and> in_bounds edge_next \<and> grid_size edge_next = grid_size edge"
proof -
  have pos: "0 < grid_size edge" by code_simp
  have ib: "in_bounds edge" by code_simp
  have mv: "list_all (\<lambda>m. 0 \<le> move_x m \<and> move_x m < grid_size edge \<and>
                  0 \<le> move_y m \<and> move_y m < grid_size edge) edge_moves"
    by code_simp
  then have mv': "\<forall>m\<in>set edge_moves. 0 \<le> move_x m \<and> move_x m < grid_size edge \<and>
                  0 \<le> move_y m \<and> move_y m < grid_size edge"
    by (simp add: list_all_iff)
  have step: "grid_next edge edge_moves = Inr edge_next" by code_simp
  from next_keeps_in_bounds [OF pos ib mv' step] pos ib mv step show ?thesis
    by blast
qed

subsection \<open>C9: the trace of the test\<close>

text \<open>
  Claim C9 says that, from the three cells \<open>(2, 3)\<close>, \<open>(3, 3)\<close>, \<open>(4, 3)\<close> on a grid of
  size 50, two steps that are equivalent to \<open>next([])\<close> give 3 live cells after the first
  step, and 3 live cells with \<open>(4, 2)\<close> and \<open>(2, 4)\<close> among them after the second. With
  empty batches the first step gives the upright row \<open>(3, 2)\<close>, \<open>(3, 3)\<close>, \<open>(3, 4)\<close> and
  the second gives back the three cells of the start: neither \<open>(4, 2)\<close> nor \<open>(2, 4)\<close> is
  live.
\<close>

theorem blinker_trace_counterexample:
  "grid_next blinker [] = Inr upright
   \<and> length (cells upright) = 3
   \<and> grid_next upright [] = Inr flat
   \<and> length (cells flat) = 3
   \<and> \<not> live_at flat (Num 4, Num 2)
   \<and> \<not> live_at flat (Num 2, Num 4)"
  by code_simp

text \<open>
  Claim C9, amended. With the batches of the test, \<open>(10, 10)\<close>, \<open>(15, 15)\<close>, \<open>(25, 25)\<close>
  and then \<open>(5, 2)\<close>, \<open>(1, 4)\<close>, \<open>(25, 25)\<close>, the first step gives the 3 cells of the
  upright row, and the second step gives 3 cells, \<open>(4, 2)\<close> and \<open>(2, 4)\<close> among them. The
  second batch is part of the pattern: its moves make \<open>(5, 2)\<close> and \<open>(1, 4)\<close> live, which
  gives \<open>(4, 2)\<close> its third live neighbour, where the upright row alone gives it two.
\<close>

theorem blinker_trace_reference_moves:
  "grid_next blinker first_moves = Inr upright
   \<and> length (cells upright) = 3
   \<and> grid_next upright second_moves = Inr crossed
   \<and> length (cells crossed) = 3
   \<and> live_at crossed (Num 4, Num 2)
   \<and> live_at crossed (Num 2, Num 4)
   \<and> live_at (apply_moves upright second_moves) (Num 5, Num 2)
   \<and> live_at (apply_moves upright second_moves) (Num 1, Num 4)
   \<and> live_count (apply_moves upright second_moves) (Num 4, Num 2) = 3
   \<and> live_count upright (Num 4, Num 2) = 2"
  by code_simp

subsection \<open>C10: survivors keep their owner\<close>

text \<open>
  Claim C10. Take a call of \<open>next\<close> that returns, and a cell \<open>c\<close> of the next generation
  whose coordinate was live before the call and is the coordinate of no move of the call.
  Then \<open>c\<close>, with the owner and the coordinates it has, is a cell of the grid before the
  call; when the grid held at most one cell per coordinate, it is the one cell that stood
  at that coordinate.
\<close>

theorem survivors_keep_owner:
  assumes "grid_next g turnMoves = Inr g'"
    and "c \<in> set (cells g')"
    and "live_at g (coords c)"
    and "\<forall>m\<in>set turnMoves. target m \<noteq> coords c"
  shows "c \<in> set (cells g) \<and>
    (distinct (map coords (cells g)) \<longrightarrow> (\<forall>d\<in>set (cells g). coords d = coords c \<longrightarrow> d = c))"
proof -
  let ?g1 = "apply_moves g turnMoves"
  from grid_next_Inr [OF assms(1)] obtain checked newBorns where
    births: "births ?g1 = Inr (checked, newBorns)" and
    g': "g' = ?g1\<lparr>cells := newBorns @ filter (isHealthy ?g1) (cells ?g1)\<rparr>"
    by blast
  have "live_at ?g1 (coords c)"
    using assms(3) live_at_apply_moves_untouched [OF assms(4)] by simp
  with newBorn_facts(3) [OF births, of c] have "c \<notin> set newBorns" by simp
  with assms(2) have "c \<in> set (cells ?g1)"
    by (auto simp: g')
  from apply_moves_subset [OF this assms(4)] have c: "c \<in> set (cells g)" .
  moreover have "d = c"
    if "distinct (map coords (cells g))" "d \<in> set (cells g)" "coords d = coords c" for d
    using that c by (meson distinct_map inj_onD)
  ultimately show ?thesis by blast
qed

theorem survivors_keep_owner_witness:
  "grid_next blinker first_moves = Inr upright
   \<and> \<lparr>cell_x = Num 3, cell_y = Num 3, owner = 1\<rparr> \<in> set (cells upright)
   \<and> live_at blinker (coords \<lparr>cell_x = Num 3, cell_y = Num 3, owner = 1\<rparr>)
   \<and> list_all (\<lambda>m. target m \<noteq> coords \<lparr>cell_x = Num 3, cell_y = Num 3, owner = 1\<rparr>) first_moves
   \<and> distinct (map coords (cells blinker))
   \<and> \<lparr>cell_x = Num 3, cell_y = Num 3, owner = 1\<rparr> \<in> set (cells blinker)"
proof -
  let ?c = "\<lparr>cell_x = Num 3, cell_y = Num 3, owner = 1\<rparr>"
  have h2: "?c \<in> set (cells upright)" by code_simp
  have h3: "live_at blinker (coords ?c)" by code_simp
  have h4: "list_all (\<lambda>m. target m \<noteq> coords ?c) first_moves" by code_simp
  then have h4': "\<forall>m\<in>set first_moves. target m \<noteq> coords ?c"
    by (simp add: list_all_iff)
  have d: "distinct (map coords (cells blinker))" by code_simp
  from survivors_keep_owner [OF blinker_first h2 h3 h4']
  have "?c \<in> set (cells blinker)" by blast
  with blinker_first h2 h3 h4 d show ?thesis by blast
qed

end
